theory Spec2Isabelle
  imports Complex_Main "HOL-Library.AList"
begin

section \<open>Determinization of a finite paraconsistent automaton (main.py)\<close>

text \<open>
  The script keeps the automaton in module-level variables (\<open>Sigma\<close>, \<open>Q\<close>,
  \<open>initial\<close>, \<open>F\<close>, \<open>delta\<close>) that every function reads.  Here they are the
  fields of a record that every function takes as its first argument.

  \<^item> A state is a Python \<open>int\<close>; the encoding \<open>to_state\<close> writes states in decimal and
    \<open>step2\<close> reads them back digit by digit, so states are modelled as \<open>nat\<close>.
  \<^item> A symbol and a word are Python strings: \<open>string\<close>.  \<open>w[0]\<close> and \<open>w[-1]\<close> are
    one-character strings, so the keys of \<open>delta\<close> carry a \<open>string\<close>.
  \<^item> \<open>Q\<close> is a Python set.  Its field is the list of its elements in the order in which
    the interpreter iterates over it; nothing below fixes that order.
  \<^item> A truth value is a pair of Python numbers.  \<open>TwistAnd\<close> and \<open>TwistOr\<close> only select
    with \<open>min\<close> and \<open>max\<close> and the code only compares with \<open>==\<close>, so no rounding
    happens and the numbers are modelled as \<open>real\<close>.
  \<^item> \<open>delta\<close> is a dictionary: a map.  A failed lookup raises \<open>KeyError\<close>.
\<close>

datatype error = KeyError | ValueError | IndexError

type_synonym truth = "real \<times> real"
type_synonym key = "nat \<times> string \<times> nat"
type_synonym transition = "string \<times> string \<times> string"

record fpna =
  Sigma_alph :: "string list"
  Q :: "nat list"
  initial :: nat
  F :: "nat list"
  delta :: "key \<rightharpoonup> truth"

subsection \<open>Algebraic operators\<close>

fun TwistAnd :: "truth \<Rightarrow> truth \<Rightarrow> truth" where
  "TwistAnd pair1 pair2 = (min (fst pair1) (fst pair2), max (snd pair1) (snd pair2))"

fun TwistOr :: "truth \<Rightarrow> truth \<Rightarrow> truth" where
  "TwistOr pair1 pair2 = (max (fst pair1) (fst pair2), min (snd pair1) (snd pair2))"

subsection \<open>Loops that may raise\<close>

text \<open>\<open>for x in xs: s = body(x, s)\<close>, left at the first exception.\<close>

primrec efold :: "('a \<Rightarrow> 's \<Rightarrow> error + 's) \<Rightarrow> 'a list \<Rightarrow> 's \<Rightarrow> error + 's" where
  "efold body [] s = Inr s"
| "efold body (x # xs) s =
     (case body x s of Inl e \<Rightarrow> Inl e | Inr s' \<Rightarrow> efold body xs s')"

subsection \<open>Completion of the transition function\<close>

definition complete :: "fpna \<Rightarrow> (key \<rightharpoonup> truth)" where
  "complete A =
     fold (\<lambda>q1. fold (\<lambda>q2. fold (\<lambda>a d.
             if d (q1, a, q2) = None then d((q1, a, q2) \<mapsto> (0, 1)) else d)
           (Sigma_alph A)) (Q A)) (Q A) (delta A)"

text \<open>The module-level statement \<open>delta = complete()\<close>.\<close>

definition completed :: "fpna \<Rightarrow> fpna" where
  "completed A = A\<lparr>delta := complete A\<rparr>"

subsection \<open>Extended transition function\<close>

fun deltastar :: "fpna \<Rightarrow> nat \<Rightarrow> string \<Rightarrow> nat \<Rightarrow> error + truth" where
  "deltastar A q1 [] q2 = Inr (if q1 = q2 then (1, 0) else (0, 1))"
| "deltastar A q1 (a # w') q2 =
     fold (\<lambda>r result. case result of
             Inl e \<Rightarrow> Inl e
           | Inr res \<Rightarrow>
               (case delta A (q1, [a], r) of
                  None \<Rightarrow> Inl KeyError
                | Some d \<Rightarrow>
                    (case deltastar A r w' q2 of
                       Inl e \<Rightarrow> Inl e
                     | Inr v \<Rightarrow> Inr (TwistOr res (TwistAnd d v)))))
          (Q A) (Inr (0, 1))"

subsection \<open>Reachability\<close>

definition reach :: "fpna \<Rightarrow> nat \<Rightarrow> string \<Rightarrow> error + nat set" where
  "reach A p w =
     efold (\<lambda>q acc. case deltastar A p w q of
                       Inl e \<Rightarrow> Inl e
                     | Inr v \<Rightarrow> Inr (if v \<noteq> (0, 1) then insert q acc else acc))
           (Q A) {}"

subsection \<open>Auxiliary functions\<close>

definition add_letter :: "fpna \<Rightarrow> string list \<Rightarrow> string list" where
  "add_letter A W = concat (map (\<lambda>w. map (\<lambda>a. w @ a) (Sigma_alph A)) W)"

text \<open>Python's \<open>str\<close> on a non-negative \<open>int\<close>: its decimal digits.\<close>

definition digit_char :: "nat \<Rightarrow> char" where
  "digit_char d = ''0123456789'' ! d"

fun str :: "nat \<Rightarrow> string" where
  "str n = (if n < 10 then [digit_char n] else str (n div 10) @ [digit_char (n mod 10)])"

text \<open>Python's \<open>int\<close> on a one-character string: \<open>ValueError\<close> unless it is a digit.\<close>

definition int_py :: "char \<Rightarrow> error + nat" where
  "int_py c =
     (if c = CHR ''0'' then Inr 0 else if c = CHR ''1'' then Inr 1
      else if c = CHR ''2'' then Inr 2 else if c = CHR ''3'' then Inr 3
      else if c = CHR ''4'' then Inr 4 else if c = CHR ''5'' then Inr 5
      else if c = CHR ''6'' then Inr 6 else if c = CHR ''7'' then Inr 7
      else if c = CHR ''8'' then Inr 8 else if c = CHR ''9'' then Inr 9
      else Inl ValueError)"

definition to_state :: "nat set \<Rightarrow> string" where
  "to_state set_states = concat (map str (sorted_list_of_set set_states))"

text \<open>\<open>any(int(s) in F for s in state)\<close>: stops at the first hit, raises at a non-digit.\<close>

fun any_final :: "fpna \<Rightarrow> string \<Rightarrow> error + bool" where
  "any_final A [] = Inr False"
| "any_final A (s # state) =
     (case int_py s of
        Inl e \<Rightarrow> Inl e
      | Inr n \<Rightarrow> if n \<in> set (F A) then Inr True else any_final A state)"

text \<open>
  The set comprehension of \<open>is_final\<close> raises when the test of any member raises; the only
  exception the test can raise is \<open>ValueError\<close>.
\<close>

definition is_final :: "fpna \<Rightarrow> string set \<Rightarrow> error + string set" where
  "is_final A set_states =
     (if \<exists>state \<in> set_states. isl (any_final A state) then Inl ValueError
      else Inr {state \<in> set_states. any_final A state = Inr True})"

subsection \<open>Determinization, step 1\<close>

text \<open>
  The body of \<open>for w in next_words\<close>.  The set \<open>transitions\<close> is kept as the list of its
  elements in the order they were added; \<open>words.remove(w)\<close> removes the first \<open>w\<close> and
  raises \<open>ValueError\<close> when there is none; \<open>w[-1]\<close> raises \<open>IndexError\<close> on the empty
  word, and is evaluated after \<open>reach\<close>.  The dictionary \<open>words_states\<close> keeps its
  entries in insertion order, as Python's does: an association list, whose values
  \<open>words_states.values()\<close> are the second components.
\<close>

definition step1_word ::
  "fpna \<Rightarrow> string \<Rightarrow> transition list \<times> string list \<times> (string \<times> string) list
     \<Rightarrow> error + transition list \<times> string list \<times> (string \<times> string) list" where
  "step1_word A w s =
     (case s of (transitions, words, words_states) \<Rightarrow>
        let prev_state = (case map_of words_states (butlast w) of
                            Some st \<Rightarrow> st
                          | None \<Rightarrow> to_state {initial A})
        in case reach A (initial A) w of
             Inl e \<Rightarrow> Inl e
           | Inr X \<Rightarrow>
               let new_state = to_state X
               in if w = [] then Inl IndexError
                  else
                    let t = (prev_state, [last w], new_state);
                        transitions' =
                          (if t \<notin> set transitions \<and> new_state \<noteq> []
                           then transitions @ [t] else transitions)
                    in if new_state \<in> snd ` set words_states \<or> new_state = []
                       then (if w \<in> set words
                             then Inr (transitions', remove1 w words,
                                       AList.update w new_state words_states)
                             else Inl ValueError)
                       else Inr (transitions', words, AList.update w new_state words_states))"

text \<open>
  The \<open>while\<close> loop, on the state (\<open>transitions\<close>, \<open>words_states\<close>, \<open>next_words\<close>).
  \<open>None\<close> is a loop that runs forever.
\<close>

partial_function (option) step1_while ::
  "fpna \<Rightarrow> transition list \<times> (string \<times> string) list \<times> string list
     \<Rightarrow> (error + transition list) option" where
  "step1_while A s =
     (case s of (transitions, words_states, next_words) \<Rightarrow>
        if next_words = [] then Some (Inr transitions)
        else (case efold (step1_word A) next_words (transitions, next_words, words_states) of
                Inl e \<Rightarrow> Some (Inl e)
              | Inr (transitions', words, words_states') \<Rightarrow>
                  step1_while A (transitions', words_states', add_letter A words)))"

definition step1 :: "fpna \<Rightarrow> (error + transition list) option" where
  "step1 A = step1_while A ([], [], Sigma_alph A)"

subsection \<open>Determinization, step 2\<close>

text \<open>The two inner loops of \<open>step2\<close>: the weight of one transition.\<close>

definition step2_weight :: "fpna \<Rightarrow> transition \<Rightarrow> error + truth" where
  "step2_weight A t =
     (case t of (S1, a, S2) \<Rightarrow>
        efold (\<lambda>p. efold (\<lambda>q value'.
                 case int_py p of
                   Inl e \<Rightarrow> Inl e
                 | Inr pn \<Rightarrow>
                     (case int_py q of
                        Inl e \<Rightarrow> Inl e
                      | Inr qn \<Rightarrow>
                          (case delta A (pn, a, qn) of
                             None \<Rightarrow> Inl KeyError
                           | Some d \<Rightarrow> Inr (TwistOr value' d)))) S2) S1 (0, 1))"

text \<open>What \<open>step2\<close> prints: the result of the determinization.\<close>

record fpda =
  initialD :: string
  QD :: "string set"
  FD :: "string set"
  deltaD :: "transition \<rightharpoonup> truth"

definition step2_loop ::
  "fpna \<Rightarrow> transition list \<Rightarrow> error + string set \<times> (transition \<rightharpoonup> truth)" where
  "step2_loop A transitions =
     efold (\<lambda>t s. case s of (qd, dd) \<Rightarrow>
              (case step2_weight A t of
                 Inl e \<Rightarrow> Inl e
               | Inr v \<Rightarrow> Inr (qd \<union> {fst t, snd (snd t)}, dd(t \<mapsto> v))))
           transitions ({}, Map.empty)"

definition step2 :: "fpna \<Rightarrow> transition list \<Rightarrow> error + fpda" where
  "step2 A transitions =
     (case step2_loop A transitions of
        Inl e \<Rightarrow> Inl e
      | Inr (qd, dd) \<Rightarrow>
          (case is_final A qd of
             Inl e \<Rightarrow> Inl e
           | Inr fd \<Rightarrow> Inr \<lparr>initialD = str (initial A), QD = qd, FD = fd, deltaD = dd\<rparr>))"

definition determinization :: "fpna \<Rightarrow> (error + fpda) option" where
  "determinization A =
     (case step1 A of
        None \<Rightarrow> None
      | Some (Inl e) \<Rightarrow> Some (Inl e)
      | Some (Inr transitions) \<Rightarrow> Some (step2 A transitions))"

subsection \<open>The automaton of Example 5\<close>

definition example5 :: fpna where
  "example5 = \<lparr>Sigma_alph = [''a'', ''b''], Q = [0, 1, 2, 3], initial = 0, F = [0, 3],
     delta = [(0, ''b'', 0) \<mapsto> (1, 0), (0, ''a'', 1) \<mapsto> (1/2, 3/5),
              (0, ''a'', 2) \<mapsto> (2/5, 4/5), (2, ''b'', 0) \<mapsto> (1, 0),
              (1, ''b'', 3) \<mapsto> (4/5, 1)]\<rparr>"

subsection \<open>Notions used in the statements\<close>

text \<open>The unit square \<open>[0,1]\<^sup>2\<close> of truth values.\<close>

definition unit_square :: "truth \<Rightarrow> bool" where
  "unit_square x = (0 \<le> fst x \<and> fst x \<le> 1 \<and> 0 \<le> snd x \<and> snd x \<le> 1)"

text \<open>The triples \<open>Q \<times> Sigma \<times> Q\<close> that \<open>complete\<close> ranges over.\<close>

definition triples :: "fpna \<Rightarrow> key set" where
  "triples A = set (Q A) \<times> set (Sigma_alph A) \<times> set (Q A)"

text \<open>A relation with the value \<open>(0, 1)\<close> put at every key of \<open>K\<close> it lacks.\<close>

definition fill :: "key set \<Rightarrow> (key \<rightharpoonup> truth) \<Rightarrow> (key \<rightharpoonup> truth)" where
  "fill K d = (\<lambda>k. case d k of Some v \<Rightarrow> Some v | None \<Rightarrow> if k \<in> K then Some (0, 1) else None)"

text \<open>Every symbol of the word, as the one-character string \<open>w[i]\<close>, belongs to \<open>Sigma\<close>.\<close>

definition symbols_ok :: "fpna \<Rightarrow> string \<Rightarrow> bool" where
  "symbols_ok A w = (\<forall>c \<in> set w. [c] \<in> set (Sigma_alph A))"

subsection \<open>Further automata\<close>

text \<open>An automaton with a state whose decimal numeral has two digits.\<close>

definition example_two_digit :: fpna where
  "example_two_digit = \<lparr>Sigma_alph = [''a''], Q = [0, 1, 10], initial = 10, F = [1],
     delta = [(10, ''a'', 10) \<mapsto> (1, 0)]\<rparr>"

text \<open>An automaton whose only transition is absent: no symbol leads anywhere.\<close>

definition example_dead :: fpna where
  "example_dead = \<lparr>Sigma_alph = [''a''], Q = [0], initial = 0, F = [0], delta = Map.empty\<rparr>"

text \<open>
  An ill-formed automaton: a final state outside \<open>Q\<close>, a truth value outside the unit
  square, and a key of the table whose states and symbol are outside \<open>Q\<close> and \<open>Sigma\<close>.
\<close>

definition example_ill_formed :: fpna where
  "example_ill_formed = \<lparr>Sigma_alph = [''a''], Q = [0], initial = 0, F = [7],
     delta = [(0, ''a'', 0) \<mapsto> (2, - 1), (5, ''c'', 5) \<mapsto> (1, 0)]\<rparr>"

text \<open>An ill-formed automaton: the initial state is not in \<open>Q\<close>.\<close>

definition example_no_initial :: fpna where
  "example_no_initial = \<lparr>Sigma_alph = [''a''], Q = [0], initial = 7, F = [0],
     delta = [(0, ''a'', 0) \<mapsto> (1, 0)]\<rparr>"

subsection \<open>Notions for the run of \<open>step1\<close>\<close>

text \<open>
  The encoding that \<open>step1\<close> computes for a word: \<open>to_state(reach(initial, w))\<close>, and the
  empty string when \<open>reach\<close> raises.
\<close>

definition enc :: "fpna \<Rightarrow> string \<Rightarrow> string" where
  "enc A w = (case reach A (initial A) w of Inl e \<Rightarrow> [] | Inr X \<Rightarrow> to_state X)"

text \<open>The encodings of all subsets of \<open>Q\<close>, and those that are not the empty string.\<close>

definition encodings :: "fpna \<Rightarrow> string set" where
  "encodings A = to_state ` Pow (set (Q A))"

definition nonempty_encodings :: "fpna \<Rightarrow> string set" where
  "nonempty_encodings A = encodings A - {[]}"

text \<open>The deterministic states that occur in a set of transitions: what \<open>step2\<close> puts in \<open>QD\<close>.\<close>

definition states_of :: "transition list \<Rightarrow> string set" where
  "states_of T = fst ` set T \<union> (\<lambda>t. snd (snd t)) ` set T"

text \<open>
  The \<open>while\<close> loop of \<open>step1\<close> run for at most \<open>n\<close> iterations (\<open>None\<close> when they do not
  suffice).  Beside the result it returns the words that were extended: at each
  \<open>next_words = add_letter(words)\<close>, the list \<open>words\<close> of the words that survived the
  pruning.
\<close>

fun step1_run ::
  "nat \<Rightarrow> fpna \<Rightarrow> transition list \<times> (string \<times> string) list \<times> string list
     \<Rightarrow> (error + transition list) option \<times> string list" where
  "step1_run 0 A s = (None, [])"
| "step1_run (Suc n) A (transitions, words_states, next_words) =
     (if next_words = [] then (Some (Inr transitions), [])
      else (case efold (step1_word A) next_words (transitions, next_words, words_states) of
              Inl e \<Rightarrow> (Some (Inl e), [])
            | Inr (transitions', words, words_states') \<Rightarrow>
                (case step1_run n A (transitions', words_states', add_letter A words) of
                   (r, extended) \<Rightarrow> (r, words @ extended))))"

text \<open>Invariants of the loops of \<open>step1\<close>.\<close>

definition entries_ok :: "fpna \<Rightarrow> (string \<times> string) list \<Rightarrow> bool" where
  "entries_ok A ST = (\<forall>(k, v) \<in> set ST. v = enc A k)"

definition survivors_ok ::
  "fpna \<Rightarrow> string set \<Rightarrow> (string \<times> string) list \<Rightarrow> string list \<Rightarrow> bool" where
  "survivors_ok A V0 ST S =
     (distinct S \<and> inj_on (enc A) (set S) \<and> enc A ` set S \<subseteq> snd ` set ST
      \<and> enc A ` set S \<inter> V0 = {} \<and> [] \<notin> enc A ` set S \<and> V0 \<subseteq> snd ` set ST
      \<and> entries_ok A ST)"

definition frontier_ok :: "fpna \<Rightarrow> string list \<Rightarrow> bool" where
  "frontier_ok A nw = (\<forall>w \<in> set nw. w \<noteq> [] \<and> symbols_ok A w \<and> enc A (butlast w) \<noteq> [])"

section \<open>Properties\<close>

subsection \<open>The algebra of truth values\<close>

text \<open>
  Claim C4.  For truth values \<open>x\<close>, \<open>y\<close>, \<open>z\<close> of the unit square, \<open>TwistAnd\<close> and \<open>TwistOr\<close>
  are commutative, associative and idempotent; \<open>(0, 1)\<close> is neutral for \<open>TwistOr\<close> and
  absorbing for \<open>TwistAnd\<close>; \<open>(1, 0)\<close> is neutral for \<open>TwistAnd\<close> and absorbing for
  \<open>TwistOr\<close>; and both operators stay in the unit square.
\<close>

theorem twist_laws:
  assumes "unit_square x" "unit_square y" "unit_square z"
  shows "TwistAnd x y = TwistAnd y x \<and> TwistOr x y = TwistOr y x
    \<and> TwistAnd (TwistAnd x y) z = TwistAnd x (TwistAnd y z)
    \<and> TwistOr (TwistOr x y) z = TwistOr x (TwistOr y z)
    \<and> TwistAnd x x = x \<and> TwistOr x x = x
    \<and> TwistOr x (0, 1) = x \<and> TwistAnd x (0, 1) = (0, 1)
    \<and> TwistAnd x (1, 0) = x \<and> TwistOr x (1, 0) = (1, 0)
    \<and> unit_square (TwistAnd x y) \<and> unit_square (TwistOr x y)"
  using assms
  by (cases x; cases y; cases z) (simp add: unit_square_def min_def max_def)

theorem twist_laws_witness:
  "unit_square (1/2, 3/5) \<and> unit_square (2/5, 4/5) \<and> unit_square (4/5, 1)
   \<and> TwistOr (1/2, 3/5) (2/5, 4/5) = TwistOr (2/5, 4/5) (1/2, 3/5)
   \<and> TwistOr (1/2, 3/5) (2/5, 4/5) = (1/2, 3/5)
   \<and> TwistAnd (1/2, 3/5) (2/5, 4/5) = (2/5, 4/5)
   \<and> TwistAnd (TwistAnd (1/2, 3/5) (2/5, 4/5)) (4/5, 1)
       = TwistAnd (1/2, 3/5) (TwistAnd (2/5, 4/5) (4/5, 1))
   \<and> unit_square (TwistAnd (1/2, 3/5) (2/5, 4/5))"
proof -
  have h: "unit_square (1/2, 3/5)" "unit_square (2/5, 4/5)" "unit_square (4/5, 1)"
    by (simp_all add: unit_square_def)
  have v: "TwistOr (1/2, 3/5) (2/5, 4/5) = (1/2, 3/5)"
          "TwistAnd (1/2, 3/5) (2/5, 4/5) = (2/5, 4/5)"
    by simp_all
  from twist_laws [OF h] h v show ?thesis by simp
qed

subsection \<open>Completion\<close>

lemma fill_fill: "fill K2 (fill K1 d) = fill (K1 \<union> K2) d"
  by (auto simp: fill_def fun_eq_iff split: option.splits)

lemma fill_empty: "fill {} d = d"
  by (auto simp: fill_def fun_eq_iff split: option.splits)

lemma complete_inner:
  "fold (\<lambda>a d. if d (q1, a, q2) = None then d((q1, a, q2) \<mapsto> (0, 1)) else d) Sig d
     = fill {(q1, a, q2) | a. a \<in> set Sig} d"
proof (induction Sig arbitrary: d)
  case Nil
  then show ?case by (simp add: fill_empty)
next
  case (Cons a Sig)
  have "(if d (q1, a, q2) = None then d((q1, a, q2) \<mapsto> (0, 1)) else d) = fill {(q1, a, q2)} d"
    by (auto simp: fill_def fun_eq_iff split: option.splits)
  moreover have "{(q1, a, q2)} \<union> {(q1, b, q2) | b. b \<in> set Sig} = {(q1, b, q2) | b. b \<in> set (a # Sig)}"
    by auto
  ultimately show ?case by (simp add: Cons.IH fill_fill)
qed

lemma complete_middle:
  "fold (\<lambda>q2. fold (\<lambda>a d. if d (q1, a, q2) = None then d((q1, a, q2) \<mapsto> (0, 1)) else d) Sig) Qs d
     = fill {(q1, a, q2) | a q2. a \<in> set Sig \<and> q2 \<in> set Qs} d"
proof (induction Qs arbitrary: d)
  case Nil
  then show ?case by (simp add: fill_empty)
next
  case (Cons q Qs)
  have eq: "{(q1, a, q) | a. a \<in> set Sig} \<union> {(q1, a, q2) | a q2. a \<in> set Sig \<and> q2 \<in> set Qs}
      = {(q1, a, q2) | a q2. a \<in> set Sig \<and> q2 \<in> set (q # Qs)}"
    by auto
  have "fold (\<lambda>q2. fold (\<lambda>a d. if d (q1, a, q2) = None then d((q1, a, q2) \<mapsto> (0, 1)) else d) Sig) (q # Qs) d
      = fill {(q1, a, q2) | a q2. a \<in> set Sig \<and> q2 \<in> set Qs} (fill {(q1, a, q) | a. a \<in> set Sig} d)"
    by (simp only: fold_simps Cons.IH complete_inner)
  also have "\<dots> = fill ({(q1, a, q) | a. a \<in> set Sig} \<union> {(q1, a, q2) | a q2. a \<in> set Sig \<and> q2 \<in> set Qs}) d"
    by (rule fill_fill)
  finally show ?case by (simp only: eq)
qed

lemma complete_outer:
  "fold (\<lambda>q1. fold (\<lambda>q2. fold (\<lambda>a d. if d (q1, a, q2) = None then d((q1, a, q2) \<mapsto> (0, 1)) else d) Sig) Qs) Ps d
     = fill {(q1, a, q2) | q1 a q2. q1 \<in> set Ps \<and> a \<in> set Sig \<and> q2 \<in> set Qs} d"
proof (induction Ps arbitrary: d)
  case Nil
  then show ?case by (simp add: fill_empty)
next
  case (Cons p Ps)
  have eq: "{(p, a, q2) | a q2. a \<in> set Sig \<and> q2 \<in> set Qs}
        \<union> {(q1, a, q2) | q1 a q2. q1 \<in> set Ps \<and> a \<in> set Sig \<and> q2 \<in> set Qs}
      = {(q1, a, q2) | q1 a q2. q1 \<in> set (p # Ps) \<and> a \<in> set Sig \<and> q2 \<in> set Qs}"
    by auto
  have "fold (\<lambda>q1. fold (\<lambda>q2. fold (\<lambda>a d. if d (q1, a, q2) = None then d((q1, a, q2) \<mapsto> (0, 1)) else d) Sig) Qs) (p # Ps) d
      = fill {(q1, a, q2) | q1 a q2. q1 \<in> set Ps \<and> a \<in> set Sig \<and> q2 \<in> set Qs}
          (fill {(p, a, q2) | a q2. a \<in> set Sig \<and> q2 \<in> set Qs} d)"
    by (simp only: fold_simps Cons.IH complete_middle)
  also have "\<dots> = fill ({(p, a, q2) | a q2. a \<in> set Sig \<and> q2 \<in> set Qs}
        \<union> {(q1, a, q2) | q1 a q2. q1 \<in> set Ps \<and> a \<in> set Sig \<and> q2 \<in> set Qs}) d"
    by (rule fill_fill)
  finally show ?case by (simp only: eq)
qed

lemma complete_fill: "complete A = fill (triples A) (delta A)"
proof -
  have "{(q1, a, q2) | q1 a q2. q1 \<in> set (Q A) \<and> a \<in> set (Sigma_alph A) \<and> q2 \<in> set (Q A)} = triples A"
    by (auto simp: triples_def)
  then show ?thesis by (simp add: complete_def complete_outer)
qed

lemma completed_simps [simp]:
  "Sigma_alph (completed A) = Sigma_alph A" "Q (completed A) = Q A"
  "initial (completed A) = initial A" "F (completed A) = F A" "delta (completed A) = complete A"
  by (simp_all add: completed_def)

lemma triples_completed [simp]: "triples (completed A) = triples A"
  by (simp add: triples_def)

lemma complete_lookup:
  "complete A (q, s, r) =
     (case delta A (q, s, r) of
        Some v \<Rightarrow> Some v
      | None \<Rightarrow> if q \<in> set (Q A) \<and> s \<in> set (Sigma_alph A) \<and> r \<in> set (Q A)
                then Some (0, 1) else None)"
  by (auto simp: complete_fill fill_def triples_def split: option.splits)

lemma example5_fields:
  "Sigma_alph example5 = [''a'', ''b'']" "Q example5 = [0, 1, 2, 3]" "initial example5 = 0"
  "F example5 = [0, 3]"
  "delta example5 = [(0, ''b'', 0) \<mapsto> (1, 0), (0, ''a'', 1) \<mapsto> (1/2, 3/5),
              (0, ''a'', 2) \<mapsto> (2/5, 4/5), (2, ''b'', 0) \<mapsto> (1, 0),
              (1, ''b'', 3) \<mapsto> (4/5, 1)]"
  by (simp_all add: example5_def)

text \<open>
  Claim C7.  \<open>complete\<close> leaves every entry of \<open>delta\<close> as it is, puts \<open>(0, 1)\<close> at every
  triple of \<open>Q \<times> Sigma \<times> Q\<close> that has no entry, and adds nothing else; the result is
  defined on all of \<open>Q \<times> Sigma \<times> Q\<close>, and completing it again changes nothing.
\<close>

theorem complete_total_idempotent:
  "(\<forall>k v. delta A k = Some v \<longrightarrow> complete A k = Some v)
   \<and> (\<forall>k. delta A k = None \<and> k \<in> triples A \<longrightarrow> complete A k = Some (0, 1))
   \<and> (\<forall>k. delta A k = None \<and> k \<notin> triples A \<longrightarrow> complete A k = None)
   \<and> (\<forall>k \<in> triples A. complete A k \<noteq> None)
   \<and> complete (completed A) = complete A"
  by (auto simp: complete_fill fill_def fun_eq_iff split: option.splits)

theorem complete_total_idempotent_witness:
  "complete example5 (0, ''a'', 1) = Some (1/2, 3/5)
   \<and> complete example5 (3, ''a'', 3) = Some (0, 1)
   \<and> complete example5 (7, ''a'', 3) = None
   \<and> complete (completed example5) = complete example5"
proof -
  note t = complete_total_idempotent [of example5]
  have a: "delta example5 (0, ''a'', 1) = Some (1/2, 3/5)"
    by (simp add: example5_fields)
  have b: "delta example5 (3, ''a'', 3) = None \<and> (3, ''a'', 3) \<in> triples example5"
    by (simp add: example5_fields triples_def)
  have c: "delta example5 (7, ''a'', 3) = None \<and> (7, ''a'', 3) \<notin> triples example5"
    by (simp add: example5_fields triples_def)
  from t a have "complete example5 (0, ''a'', 1) = Some (1/2, 3/5)" by blast
  moreover from t b have "complete example5 (3, ''a'', 3) = Some (0, 1)" by blast
  moreover from t c have "complete example5 (7, ''a'', 3) = None" by blast
  moreover from t have "complete (completed example5) = complete example5" by blast
  ultimately show ?thesis by blast
qed

subsection \<open>The extended transition function\<close>

text \<open>the loop of deltastar, with an accumulator that may already hold an exception\<close>
lemma deltastar_loop_Inl:
  "fold (\<lambda>r result. case result of Inl e \<Rightarrow> Inl e | Inr res \<Rightarrow> g r res) Qs (Inl e) = Inl e"
  by (induction Qs) simp_all

lemma deltastar_loop_Inr:
  assumes "\<forall>r \<in> set Qs. dl (q1, [a], r) = Some (d r) \<and> ds r = Inr (v r)"
  shows "fold (\<lambda>r result. case result of
             Inl e \<Rightarrow> Inl e
           | Inr res \<Rightarrow>
               (case dl (q1, [a], r) of
                  None \<Rightarrow> Inl KeyError
                | Some d \<Rightarrow>
                    (case ds r of
                       Inl e \<Rightarrow> Inl e
                     | Inr v \<Rightarrow> Inr (TwistOr res (TwistAnd d v)))))
          Qs (Inr acc)
       = Inr (fold (\<lambda>r res. TwistOr res (TwistAnd (d r) (v r))) Qs acc)"
  using assms by (induction Qs arbitrary: acc) simp_all

lemma deltastar_defined:
  assumes tot: "\<forall>k \<in> triples A. delta A k \<noteq> None"
  shows "q1 \<in> set (Q A) \<Longrightarrow> symbols_ok A w \<Longrightarrow> \<exists>v. deltastar A q1 w q2 = Inr v"
proof (induction w arbitrary: q1)
  case Nil
  then show ?case by simp
next
  case (Cons a w)
  have sym: "[a] \<in> set (Sigma_alph A)" "symbols_ok A w"
    using Cons.prems(2) by (simp_all add: symbols_ok_def)
  have "\<forall>r \<in> set (Q A). \<exists>d. delta A (q1, [a], r) = Some d"
    using tot Cons.prems(1) sym(1) by (auto simp: triples_def)
  then obtain d where d: "\<forall>r \<in> set (Q A). delta A (q1, [a], r) = Some (d r)"
    by metis
  have "\<forall>r \<in> set (Q A). \<exists>v. deltastar A r w q2 = Inr v"
    using Cons.IH sym(2) by blast
  then obtain v where v: "\<forall>r \<in> set (Q A). deltastar A r w q2 = Inr (v r)"
    by metis
  have "deltastar A q1 (a # w) q2
      = Inr (fold (\<lambda>r res. TwistOr res (TwistAnd (d r) (v r))) (Q A) (0, 1))"
    unfolding deltastar.simps
    by (rule deltastar_loop_Inr) (use d v in blast)
  then show ?case by blast
qed

lemma deltastar_error: "deltastar A q1 w q2 = Inl e \<Longrightarrow> e = KeyError"
proof (induction w arbitrary: q1 e)
  case Nil
  then show ?case by simp
next
  case (Cons a w)
  have "\<And>acc. fold (\<lambda>r result. case result of
             Inl e \<Rightarrow> Inl e
           | Inr res \<Rightarrow>
               (case delta A (q1, [a], r) of
                  None \<Rightarrow> Inl KeyError
                | Some d \<Rightarrow>
                    (case deltastar A r w q2 of
                       Inl e \<Rightarrow> Inl e
                     | Inr v \<Rightarrow> Inr (TwistOr res (TwistAnd d v)))))
          Qs (Inr acc) = Inl e \<Longrightarrow> e = KeyError" for Qs
  proof (induction Qs)
    case Nil
    then show ?case by simp
  next
    case (Cons r Qs)
    show ?case
    proof (cases "delta A (q1, [a], r)")
      case None
      with Cons.prems show ?thesis by (simp add: deltastar_loop_Inl)
    next
      case (Some d)
      show ?thesis
      proof (cases "deltastar A r w q2")
        case (Inl e')
        with Some Cons.prems have "e = e'" by (simp add: deltastar_loop_Inl)
        with Inl \<open>\<And>q1 e. deltastar A q1 w q2 = Inl e \<Longrightarrow> e = KeyError\<close> show ?thesis by blast
      next
        case (Inr v)
        with Some Cons.prems Cons.IH show ?thesis by simp
      qed
    qed
  qed
  with Cons.prems show ?case by simp
qed

lemma deltastar_missing:
  assumes ne: "Q A \<noteq> []" and miss: "\<forall>q r. delta A (q, [c], r) = None"
  shows "c \<in> set w \<Longrightarrow> deltastar A q1 w q2 = Inl KeyError"
proof (induction w arbitrary: q1)
  case Nil
  then show ?case by simp
next
  case (Cons a w)
  obtain r Qs where Q: "Q A = r # Qs" using ne by (cases "Q A") auto
  show ?case
  proof (cases "delta A (q1, [a], r)")
    case None
    then show ?thesis by (simp add: Q deltastar_loop_Inl)
  next
    case (Some d)
    with miss have "a \<noteq> c" by auto
    with Cons.prems have "c \<in> set w" by simp
    then have "deltastar A r w q2 = Inl KeyError" by (rule Cons.IH)
    with Some show ?thesis by (simp add: Q deltastar_loop_Inl)
  qed
qed

lemma complete_total: "\<forall>k \<in> triples (completed A). delta (completed A) k \<noteq> None"
  by (auto simp: complete_fill fill_def split: option.splits)

lemma complete_missing:
  assumes "[c] \<notin> set (Sigma_alph A)" "\<forall>q r. delta A (q, [c], r) = None"
  shows "\<forall>q r. delta (completed A) (q, [c], r) = None"
  using assms by (auto simp: complete_fill fill_def triples_def split: option.splits)

text \<open>
  Claim C1.  After completion, for \<open>q1\<close>, \<open>q2\<close> in \<open>Q\<close> and a word over \<open>Sigma\<close>:
  \<open>deltastar\<close> returns \<open>(1, 0)\<close> on the empty word when \<open>q1 = q2\<close> and \<open>(0, 1)\<close> when
  \<open>q1 \<noteq> q2\<close>; on \<open>a\<cdot>w'\<close> every lookup \<open>delta[(q1, a, r)]\<close> and every recursive call
  \<open>deltastar(r, w', q2)\<close> returns a value, and the result is the fold over the \<open>r\<close> of \<open>Q\<close>,
  from \<open>(0, 1)\<close>, of \<open>TwistOr\<close> with \<open>TwistAnd\<close> of these two values.
\<close>

theorem deltastar_unfold:
  assumes "q1 \<in> set (Q A)" "q2 \<in> set (Q A)" "symbols_ok A w"
  shows "(w = [] \<and> q1 = q2 \<longrightarrow> deltastar (completed A) q1 w q2 = Inr (1, 0))
       \<and> (w = [] \<and> q1 \<noteq> q2 \<longrightarrow> deltastar (completed A) q1 w q2 = Inr (0, 1))
       \<and> (\<forall>a w'. w = a # w' \<longrightarrow>
            (\<exists>d v. (\<forall>r \<in> set (Q A). complete A (q1, [a], r) = Some (d r)
                                  \<and> deltastar (completed A) r w' q2 = Inr (v r))
                  \<and> deltastar (completed A) q1 w q2
                      = Inr (fold (\<lambda>r result. TwistOr result (TwistAnd (d r) (v r))) (Q A) (0, 1))))"
proof (intro conjI allI impI)
  fix a w' assume w: "w = a # w'"
  have sym: "[a] \<in> set (Sigma_alph A)" "symbols_ok (completed A) w'"
    using assms(3) w by (simp_all add: symbols_ok_def)
  have "\<forall>r \<in> set (Q A). \<exists>d. complete A (q1, [a], r) = Some d"
    using complete_total[of A] assms(1) sym(1) by (auto simp: triples_def)
  then obtain d where d: "\<forall>r \<in> set (Q A). complete A (q1, [a], r) = Some (d r)"
    by metis
  have "\<forall>r \<in> set (Q A). \<exists>v. deltastar (completed A) r w' q2 = Inr v"
    using deltastar_defined[OF complete_total, of _ A w' q2] sym(2) by simp
  then obtain v where v: "\<forall>r \<in> set (Q A). deltastar (completed A) r w' q2 = Inr (v r)"
    by metis
  have "deltastar (completed A) q1 (a # w') q2
      = Inr (fold (\<lambda>r res. TwistOr res (TwistAnd (d r) (v r))) (Q A) (0, 1))"
    unfolding deltastar.simps completed_simps
    by (rule deltastar_loop_Inr) (use d v in blast)
  with d v w show "\<exists>d v. (\<forall>r \<in> set (Q A). complete A (q1, [a], r) = Some (d r)
                                  \<and> deltastar (completed A) r w' q2 = Inr (v r))
                  \<and> deltastar (completed A) q1 w q2
                      = Inr (fold (\<lambda>r result. TwistOr result (TwistAnd (d r) (v r))) (Q A) (0, 1))"
    by blast
qed simp_all

theorem deltastar_unfold_witness:
  "0 \<in> set (Q example5) \<and> 3 \<in> set (Q example5) \<and> symbols_ok example5 ''ab''
   \<and> (\<exists>(d :: nat \<Rightarrow> truth) (v :: nat \<Rightarrow> truth). complete example5 (0, ''a'', 1) = Some (d 1)
            \<and> deltastar (completed example5) 1 ''b'' 3 = Inr (v 1)
            \<and> deltastar (completed example5) 0 ''ab'' 3
                = Inr (fold (\<lambda>r result. TwistOr result (TwistAnd (d r) (v r))) [0, 1, 2, 3] (0, 1)))
   \<and> deltastar (completed example5) 0 ''ab'' 3 = Inr (1/2, 1)"
proof -
  have h: "0 \<in> set (Q example5)" "3 \<in> set (Q example5)" "symbols_ok example5 ''ab''"
    by (simp_all add: example5_fields symbols_ok_def)
  have v: "deltastar (completed example5) 0 ''ab'' 3 = Inr (1/2, 1)"
    by (simp add: complete_lookup example5_fields)
  have u: "\<forall>a w'. ''ab'' = a # w' \<longrightarrow>
            (\<exists>d v. (\<forall>r \<in> set (Q example5). complete example5 (0, [a], r) = Some (d r)
                                  \<and> deltastar (completed example5) r w' 3 = Inr (v r))
                  \<and> deltastar (completed example5) 0 ''ab'' 3
                      = Inr (fold (\<lambda>r result. TwistOr result (TwistAnd (d r) (v r)))
                               (Q example5) (0, 1)))"
    using deltastar_unfold [OF h] by (rule conjunct2 [OF conjunct2])
  have "\<exists>d v. (\<forall>r \<in> set (Q example5). complete example5 (0, ''a'', r) = Some (d r)
                                  \<and> deltastar (completed example5) r ''b'' 3 = Inr (v r))
                  \<and> deltastar (completed example5) 0 ''ab'' 3
                      = Inr (fold (\<lambda>r result. TwistOr result (TwistAnd (d r) (v r)))
                               (Q example5) (0, 1))"
    by (rule u [rule_format, of "CHR ''a''" "''b''", OF refl])
  then obtain d v where
    dv: "\<forall>r \<in> set (Q example5). complete example5 (0, ''a'', r) = Some (d r)
        \<and> deltastar (completed example5) r ''b'' 3 = Inr (v r)"
    and e: "deltastar (completed example5) 0 ''ab'' 3
       = Inr (fold (\<lambda>r result. TwistOr result (TwistAnd (d r) (v r))) (Q example5) (0, 1))"
    by (elim exE conjE)
  have c1: "complete example5 (0, ''a'', 1) = Some (d 1)"
    and c2: "deltastar (completed example5) 1 ''b'' 3 = Inr (v 1)"
    using dv by (simp_all add: example5_fields)
  have c3: "deltastar (completed example5) 0 ''ab'' 3
                = Inr (fold (\<lambda>r result. TwistOr result (TwistAnd (d r) (v r))) [0, 1, 2, 3] (0, 1))"
    using e by (simp only: example5_fields)
  have "\<exists>(d :: nat \<Rightarrow> truth) (v :: nat \<Rightarrow> truth). complete example5 (0, ''a'', 1) = Some (d 1)
            \<and> deltastar (completed example5) 1 ''b'' 3 = Inr (v 1)
            \<and> deltastar (completed example5) 0 ''ab'' 3
                = Inr (fold (\<lambda>r result. TwistOr result (TwistAnd (d r) (v r))) [0, 1, 2, 3] (0, 1))"
    by (rule exI [of _ d], rule exI [of _ v]) (intro conjI c1 c2 c3)
  with h v show ?thesis by (intro conjI)
qed

text \<open>
  Claim C10.  After completion, \<open>deltastar(q1, w, q2)\<close> returns a value (no lookup raises)
  for all \<open>q1\<close>, \<open>q2\<close> in \<open>Q\<close> and every word whose symbols are all in \<open>Sigma\<close>.  When \<open>Q\<close>
  is not empty and the word has a symbol that is not in \<open>Sigma\<close> and occurs in no key
  of the transition table, the call raises \<open>KeyError\<close>.
\<close>

theorem deltastar_total_iff_symbols:
  "(\<forall>q1 \<in> set (Q A). \<forall>q2 \<in> set (Q A). \<forall>w. symbols_ok A w \<longrightarrow>
       (\<exists>v. deltastar (completed A) q1 w q2 = Inr v))
   \<and> (\<forall>q1 q2 w c. Q A \<noteq> [] \<and> c \<in> set w \<and> [c] \<notin> set (Sigma_alph A)
          \<and> (\<forall>q r. delta A (q, [c], r) = None)
        \<longrightarrow> deltastar (completed A) q1 w q2 = Inl KeyError)"
proof (intro conjI ballI allI impI)
  fix q1 q2 w assume "q1 \<in> set (Q A)" "symbols_ok A w"
  then show "\<exists>v. deltastar (completed A) q1 w q2 = Inr v"
    using deltastar_defined[OF complete_total, of q1 A w q2] by (simp add: symbols_ok_def)
next
  fix q1 q2 w c
  assume h: "Q A \<noteq> [] \<and> c \<in> set w \<and> [c] \<notin> set (Sigma_alph A) \<and> (\<forall>q r. delta A (q, [c], r) = None)"
  then have "\<forall>q r. delta (completed A) (q, [c], r) = None"
    using complete_missing[of c A] by blast
  moreover have "Q (completed A) \<noteq> []" using h by simp
  ultimately show "deltastar (completed A) q1 w q2 = Inl KeyError"
    using h deltastar_missing by blast
qed

theorem deltastar_total_iff_symbols_witness:
  "0 \<in> set (Q example5) \<and> 3 \<in> set (Q example5) \<and> symbols_ok example5 ''ab''
   \<and> (\<exists>v. deltastar (completed example5) 0 ''ab'' 3 = Inr v)
   \<and> Q example5 \<noteq> [] \<and> CHR ''c'' \<in> set ''ac'' \<and> ''c'' \<notin> set (Sigma_alph example5)
   \<and> deltastar (completed example5) 0 ''ac'' 3 = Inl KeyError"
proof -
  note t = deltastar_total_iff_symbols [of example5]
  have h: "0 \<in> set (Q example5)" "3 \<in> set (Q example5)" "symbols_ok example5 ''ab''"
    by (simp_all add: example5_fields symbols_ok_def)
  have g: "Q example5 \<noteq> [] \<and> CHR ''c'' \<in> set ''ac'' \<and> ''c'' \<notin> set (Sigma_alph example5)
           \<and> (\<forall>q r. delta example5 (q, ''c'', r) = None)"
    by (simp add: example5_fields)
  from t h have "\<exists>v. deltastar (completed example5) 0 ''ab'' 3 = Inr v" by blast
  moreover from t g have "deltastar (completed example5) 0 ''ac'' 3 = Inl KeyError" by blast
  ultimately show ?thesis using h g by blast
qed

subsection \<open>Unfolding the loops of \<open>step1\<close>\<close>

lemma step1_word_eval:
  assumes "initial A = i" "to_state {i} = i0" "reach A i w = Inr X" "to_state X = ns" "w \<noteq> []"
  shows "step1_word A w (T, W, ST) =
     (let prev_state = (case map_of ST (butlast w) of Some st \<Rightarrow> st | None \<Rightarrow> i0);
          t = (prev_state, [last w], ns);
          T' = (if t \<notin> set T \<and> ns \<noteq> [] then T @ [t] else T)
      in if ns \<in> snd ` set ST \<or> ns = []
         then (if w \<in> set W then Inr (T', remove1 w W, AList.update w ns ST)
               else Inl ValueError)
         else Inr (T', W, AList.update w ns ST))"
proof -
  have a: "to_state {initial A} = i0" "reach A (initial A) w = Inr X"
    using assms(1-3) by simp_all
  show ?thesis
    by (simp add: step1_word_def Let_def a assms(4,5) cong: option.case_cong)
qed

lemma step1_while_round:
  "nw \<noteq> [] \<Longrightarrow> efold (step1_word A) nw (T, nw, ST) = Inr (T', W, ST')
    \<Longrightarrow> step1_while A (T, ST, nw) = step1_while A (T', ST', add_letter A W)"
  by (subst step1_while.simps) simp

lemma step1_while_stop: "step1_while A (T, ST, []) = Some (Inr T)"
  by (subst step1_while.simps) simp

subsection \<open>The run on Example 5\<close>

lemma ex_reach:
  "reach (completed example5) 0 ''a'' = Inr {1, 2}"
  "reach (completed example5) 0 ''b'' = Inr {0}"
  "reach (completed example5) 0 ''aa'' = Inr {}"
  "reach (completed example5) 0 ''ab'' = Inr {0, 3}"
  "reach (completed example5) 0 ''ba'' = Inr {1, 2}"
  "reach (completed example5) 0 ''bb'' = Inr {0}"
  "reach (completed example5) 0 ''aba'' = Inr {1, 2}"
  "reach (completed example5) 0 ''abb'' = Inr {0}"
  by (simp_all add: reach_def complete_lookup example5_fields insert_commute)

lemma ex_to_state:
  "to_state {} = []" "to_state {0} = ''0''" "to_state {1, 2} = ''12''" "to_state {0, 3} = ''03''"
  by (simp_all add: to_state_def digit_char_def sorted_list_of_set_sort_remdups)

lemma ex_initial: "initial (completed example5) = 0"
  by (simp add: example5_fields)

lemma ex_word:
  "step1_word (completed example5) ''a'' (T, W, ST) =
     (let prev_state = (case map_of ST (butlast ''a'') of Some st \<Rightarrow> st | None \<Rightarrow> ''0'');
          t = (prev_state, [last ''a''], ''12'');
          T' = (if t \<notin> set T \<and> ''12'' \<noteq> [] then T @ [t] else T)
      in if ''12'' \<in> snd ` set ST \<or> ''12'' = []
         then (if ''a'' \<in> set W then Inr (T', remove1 ''a'' W, AList.update ''a'' ''12'' ST)
               else Inl ValueError)
         else Inr (T', W, AList.update ''a'' ''12'' ST))"
  by (rule step1_word_eval [OF ex_initial ex_to_state(2) ex_reach(1) ex_to_state(3)]) simp

lemma ex_round1:
  "efold (step1_word (completed example5)) [''a'', ''b''] ([], [''a'', ''b''], [])
    = Inr ([(''0'', ''a'', ''12''), (''0'', ''b'', ''0'')], [''a'', ''b''],
           [(''a'', ''12''), (''b'', ''0'')])"
  by (simp add: step1_word_eval [OF ex_initial ex_to_state(2) ex_reach(1) ex_to_state(3)]
        step1_word_eval [OF ex_initial ex_to_state(2) ex_reach(2) ex_to_state(2)])

lemmas ex_words =
  step1_word_eval [OF ex_initial ex_to_state(2) ex_reach(1) ex_to_state(3)]
  step1_word_eval [OF ex_initial ex_to_state(2) ex_reach(2) ex_to_state(2)]
  step1_word_eval [OF ex_initial ex_to_state(2) ex_reach(3) ex_to_state(1)]
  step1_word_eval [OF ex_initial ex_to_state(2) ex_reach(4) ex_to_state(4)]
  step1_word_eval [OF ex_initial ex_to_state(2) ex_reach(5) ex_to_state(3)]
  step1_word_eval [OF ex_initial ex_to_state(2) ex_reach(6) ex_to_state(2)]
  step1_word_eval [OF ex_initial ex_to_state(2) ex_reach(7) ex_to_state(3)]
  step1_word_eval [OF ex_initial ex_to_state(2) ex_reach(8) ex_to_state(2)]

lemma ex_round2:
  "efold (step1_word (completed example5)) [''aa'', ''ab'', ''ba'', ''bb'']
     ([(''0'', ''a'', ''12''), (''0'', ''b'', ''0'')], [''aa'', ''ab'', ''ba'', ''bb''],
      [(''a'', ''12''), (''b'', ''0'')])
    = Inr ([(''0'', ''a'', ''12''), (''0'', ''b'', ''0''), (''12'', ''b'', ''03'')], [''ab''],
           [(''a'', ''12''), (''b'', ''0''), (''aa'', []), (''ab'', ''03''), (''ba'', ''12''),
            (''bb'', ''0'')])"
  by (simp add: ex_words Let_def)

lemma ex_round3:
  "efold (step1_word (completed example5)) [''aba'', ''abb'']
     ([(''0'', ''a'', ''12''), (''0'', ''b'', ''0''), (''12'', ''b'', ''03'')], [''aba'', ''abb''],
           [(''a'', ''12''), (''b'', ''0''), (''aa'', []), (''ab'', ''03''), (''ba'', ''12''),
            (''bb'', ''0'')])
    = Inr ([(''0'', ''a'', ''12''), (''0'', ''b'', ''0''), (''12'', ''b'', ''03''),
            (''03'', ''a'', ''12''), (''03'', ''b'', ''0'')], [],
           [(''a'', ''12''), (''b'', ''0''), (''aa'', []), (''ab'', ''03''), (''ba'', ''12''),
            (''bb'', ''0''), (''aba'', ''12''), (''abb'', ''0'')])"
  by (simp add: ex_words Let_def)

lemma ex_step1:
  "step1 (completed example5) =
     Some (Inr [(''0'', ''a'', ''12''), (''0'', ''b'', ''0''), (''12'', ''b'', ''03''),
                (''03'', ''a'', ''12''), (''03'', ''b'', ''0'')])"
proof -
  have "step1 (completed example5) = step1_while (completed example5) ([], [], [''a'', ''b''])"
    by (simp add: step1_def example5_fields)
  also have "\<dots> = step1_while (completed example5)
      ([(''0'', ''a'', ''12''), (''0'', ''b'', ''0'')], [(''a'', ''12''), (''b'', ''0'')],
       [''aa'', ''ab'', ''ba'', ''bb''])"
    by (subst step1_while_round [OF _ ex_round1]) (simp_all add: add_letter_def example5_fields)
  also have "\<dots> = step1_while (completed example5)
      ([(''0'', ''a'', ''12''), (''0'', ''b'', ''0''), (''12'', ''b'', ''03'')],
       [(''a'', ''12''), (''b'', ''0''), (''aa'', []), (''ab'', ''03''), (''ba'', ''12''),
            (''bb'', ''0'')],
       [''aba'', ''abb''])"
    by (subst step1_while_round [OF _ ex_round2]) (simp_all add: add_letter_def example5_fields)
  also have "\<dots> = step1_while (completed example5)
      ([(''0'', ''a'', ''12''), (''0'', ''b'', ''0''), (''12'', ''b'', ''03''),
            (''03'', ''a'', ''12''), (''03'', ''b'', ''0'')],
       [(''a'', ''12''), (''b'', ''0''), (''aa'', []), (''ab'', ''03''), (''ba'', ''12''),
            (''bb'', ''0''), (''aba'', ''12''), (''abb'', ''0'')],
       [])"
    by (subst step1_while_round [OF _ ex_round3]) (simp_all add: add_letter_def example5_fields)
  finally show ?thesis by (simp add: step1_while_stop)
qed

lemma ex_weights:
  "step2_weight (completed example5) (''0'', ''a'', ''12'') = Inr (1/2, 3/5)"
  "step2_weight (completed example5) (''0'', ''b'', ''0'') = Inr (1, 0)"
  "step2_weight (completed example5) (''12'', ''b'', ''03'') = Inr (1, 0)"
  "step2_weight (completed example5) (''03'', ''a'', ''12'') = Inr (1/2, 3/5)"
  "step2_weight (completed example5) (''03'', ''b'', ''0'') = Inr (1, 0)"
  by (simp_all add: step2_weight_def int_py_def complete_lookup example5_fields)

lemma ex_step2_loop:
  "step2_loop (completed example5)
     [(''0'', ''a'', ''12''), (''0'', ''b'', ''0''), (''12'', ''b'', ''03''),
      (''03'', ''a'', ''12''), (''03'', ''b'', ''0'')]
   = Inr ({''0'', ''12'', ''03''},
          [(''0'', ''a'', ''12'') \<mapsto> (1/2, 3/5), (''0'', ''b'', ''0'') \<mapsto> (1, 0),
           (''12'', ''b'', ''03'') \<mapsto> (1, 0), (''03'', ''a'', ''12'') \<mapsto> (1/2, 3/5),
           (''03'', ''b'', ''0'') \<mapsto> (1, 0)])"
  by (simp add: step2_loop_def ex_weights insert_commute)

lemma ex_any_final:
  "any_final (completed example5) ''0'' = Inr True"
  "any_final (completed example5) ''12'' = Inr False"
  "any_final (completed example5) ''03'' = Inr True"
  by (simp_all add: int_py_def example5_fields)

lemma Collect_insert_if:
  "{x \<in> insert a S. P x} = (if P a then insert a {x \<in> S. P x} else {x \<in> S. P x})"
  by auto

lemma Collect_empty_mem: "{x \<in> {}. P x} = {}"
  by simp

lemma ex_is_final:
  "is_final (completed example5) {''0'', ''12'', ''03''} = Inr {''0'', ''03''}"
proof -
  have a: "\<not> (\<exists>state \<in> {''0'', ''12'', ''03''}. isl (any_final (completed example5) state))"
    by (simp del: any_final.simps add: ex_any_final)
  have b: "{state \<in> {''0'', ''12'', ''03''}. any_final (completed example5) state = Inr True}
           = {''0'', ''03''}"
    by (simp only: Collect_insert_if Collect_empty_mem ex_any_final sum.inject simp_thms if_True
          if_False)
  show ?thesis
    unfolding is_final_def by (simp only: a b if_False)
qed

lemma ex_step2:
  "step2 (completed example5)
     [(''0'', ''a'', ''12''), (''0'', ''b'', ''0''), (''12'', ''b'', ''03''),
      (''03'', ''a'', ''12''), (''03'', ''b'', ''0'')]
   = Inr \<lparr>initialD = ''0'', QD = {''0'', ''12'', ''03''}, FD = {''0'', ''03''},
          deltaD = [(''0'', ''a'', ''12'') \<mapsto> (1/2, 3/5), (''0'', ''b'', ''0'') \<mapsto> (1, 0),
           (''12'', ''b'', ''03'') \<mapsto> (1, 0), (''03'', ''a'', ''12'') \<mapsto> (1/2, 3/5),
           (''03'', ''b'', ''0'') \<mapsto> (1, 0)]\<rparr>"
  by (simp add: step2_def ex_step2_loop ex_is_final example5_fields digit_char_def)

text \<open>
  Claim C2.  On the automaton of Example 5, \<open>step1\<close> returns five transitions, among them
  the one from the encoding of \<open>{0}\<close> on \<open>a\<close> to the encoding of \<open>{1, 2}\<close> and the one
  from \<open>{0}\<close> on \<open>b\<close> back to \<open>{0}\<close>; \<open>step2\<close> gives the first one the weight
  \<open>TwistOr (0.5, 0.6) (0.4, 0.8) = (0.5, 0.6)\<close>.
\<close>

theorem example5_determinization:
  "step1 (completed example5)
     = Some (Inr [(to_state {0}, ''a'', to_state {1, 2}), (to_state {0}, ''b'', to_state {0}),
                  (to_state {1, 2}, ''b'', to_state {0, 3}),
                  (to_state {0, 3}, ''a'', to_state {1, 2}),
                  (to_state {0, 3}, ''b'', to_state {0})])
   \<and> (\<exists>r. determinization (completed example5) = Some (Inr r)
          \<and> deltaD r (to_state {0}, ''a'', to_state {1, 2}) = Some (TwistOr (1/2, 3/5) (2/5, 4/5)))
   \<and> TwistOr (1/2, 3/5) (2/5, 4/5) = (1/2, 3/5)"
  unfolding ex_to_state by (simp add: determinization_def ex_step1 ex_step2)

subsection \<open>States with more than one digit\<close>

lemma example_two_digit_fields:
  "Sigma_alph example_two_digit = [''a'']" "Q example_two_digit = [0, 1, 10]"
  "initial example_two_digit = 10" "F example_two_digit = [1]"
  "delta example_two_digit = [(10, ''a'', 10) \<mapsto> (1, 0)]"
  by (simp_all add: example_two_digit_def)

lemma two_digit_to_state: "to_state {10} = ''10''"
  by (simp add: to_state_def digit_char_def)

lemma two_digit_reach:
  "reach (completed example_two_digit) 10 ''a'' = Inr {10}"
  "reach (completed example_two_digit) 10 ''aa'' = Inr {10}"
  by (simp_all add: reach_def complete_lookup example_two_digit_fields)

lemma two_digit_initial: "initial (completed example_two_digit) = 10"
  by (simp add: example_two_digit_fields)

lemmas two_digit_words =
  step1_word_eval [OF two_digit_initial two_digit_to_state two_digit_reach(1) two_digit_to_state]
  step1_word_eval [OF two_digit_initial two_digit_to_state two_digit_reach(2) two_digit_to_state]

lemma two_digit_step1:
  "step1 (completed example_two_digit) = Some (Inr [(''10'', ''a'', ''10'')])"
proof -
  have r1: "efold (step1_word (completed example_two_digit)) [''a''] ([], [''a''], [])
      = Inr ([(''10'', ''a'', ''10'')], [''a''], [(''a'', ''10'')])"
    by (simp add: two_digit_words Let_def)
  have r2: "efold (step1_word (completed example_two_digit)) [''aa'']
        ([(''10'', ''a'', ''10'')], [''aa''], [(''a'', ''10'')])
      = Inr ([(''10'', ''a'', ''10'')], [], [(''a'', ''10''), (''aa'', ''10'')])"
    by (simp add: two_digit_words Let_def)
  have "step1 (completed example_two_digit)
      = step1_while (completed example_two_digit) ([], [], [''a''])"
    by (simp add: step1_def example_two_digit_fields)
  also have "\<dots> = step1_while (completed example_two_digit)
      ([(''10'', ''a'', ''10'')], [(''a'', ''10'')], [''aa''])"
    by (subst step1_while_round [OF _ r1]) (simp_all add: add_letter_def example_two_digit_fields)
  also have "\<dots> = step1_while (completed example_two_digit)
      ([(''10'', ''a'', ''10'')], [(''a'', ''10''), (''aa'', ''10'')], [])"
    by (subst step1_while_round [OF _ r2]) (simp_all add: add_letter_def example_two_digit_fields)
  finally show ?thesis by (simp add: step1_while_stop)
qed

lemma two_digit_step2:
  "step2 (completed example_two_digit) [(''10'', ''a'', ''10'')]
     = Inr \<lparr>initialD = ''10'', QD = {''10''}, FD = {''10''},
            deltaD = [(''10'', ''a'', ''10'') \<mapsto> (0, 1)]\<rparr>"
proof -
  have w: "step2_weight (completed example_two_digit) (''10'', ''a'', ''10'') = Inr (0, 1)"
    by (simp add: step2_weight_def int_py_def complete_lookup example_two_digit_fields)
  have l: "step2_loop (completed example_two_digit) [(''10'', ''a'', ''10'')]
      = Inr ({''10''}, [(''10'', ''a'', ''10'') \<mapsto> (0, 1)])"
    by (simp add: step2_loop_def w)
  have f: "is_final (completed example_two_digit) {''10''} = Inr {''10''}"
    by (auto simp: is_final_def int_py_def example_two_digit_fields)
  show ?thesis
    by (simp add: step2_def l f example_two_digit_fields digit_char_def)
qed

text \<open>
  Claim C3, at \<open>Q = {0, 1, 10}\<close> with the single transition \<open>(10, a, 10) = (1, 0)\<close> and the
  initial state \<open>10\<close>.  \<open>step1\<close> finds the transition from \<open>{10}\<close> on \<open>a\<close> to \<open>{10}\<close>;
  \<open>step2\<close> reads the encoding \<open>''10''\<close> as the states \<open>1\<close> and \<open>0\<close> and gives the weight
  \<open>(0, 1)\<close>, while the fold of \<open>delta(p, a, q)\<close> over the pairs of \<open>{10}\<close> and \<open>{10}\<close> is
  \<open>(1, 0)\<close>.
\<close>

theorem two_digit_weight:
  "step1 (completed example_two_digit) = Some (Inr [(to_state {10}, ''a'', to_state {10})])
   \<and> (\<exists>r. determinization (completed example_two_digit) = Some (Inr r)
          \<and> deltaD r (to_state {10}, ''a'', to_state {10}) = Some (0, 1))
   \<and> fold (\<lambda>(p, q) v. TwistOr v (the (complete example_two_digit (p, ''a'', q))))
        (List.product (sorted_list_of_set {10}) (sorted_list_of_set {10})) (0, 1) = (1, 0)"
  by (simp add: determinization_def two_digit_step1 two_digit_step2 two_digit_to_state
        complete_lookup example_two_digit_fields)

text \<open>
  Claim C6, at the same automaton with \<open>F = [1]\<close>: the state encoding \<open>{10}\<close> is marked
  final although \<open>{10}\<close> has no member in \<open>F\<close>.  On Example 5 the encoding of \<open>{0}\<close> is
  final and the encoding of \<open>{1, 2}\<close> is a state that is not final.
\<close>

theorem two_digit_final:
  "(\<exists>r. determinization (completed example_two_digit) = Some (Inr r)
        \<and> to_state {10} \<in> QD r \<and> to_state {10} \<in> FD r)
   \<and> {10} \<inter> set (F example_two_digit) = {}
   \<and> (\<exists>r. determinization (completed example5) = Some (Inr r)
        \<and> to_state {0} \<in> FD r \<and> to_state {1, 2} \<in> QD r \<and> to_state {1, 2} \<notin> FD r)"
  unfolding ex_to_state two_digit_to_state
  by (simp add: determinization_def two_digit_step1 two_digit_step2
        example_two_digit_fields ex_step1 ex_step2)

subsection \<open>No transition at all\<close>

lemma example_dead_fields:
  "Sigma_alph example_dead = [''a'']" "Q example_dead = [0]"
  "initial example_dead = 0" "F example_dead = [0]"
  "delta example_dead = Map.empty"
  by (simp_all add: example_dead_def)

lemma dead_step1: "step1 (completed example_dead) = Some (Inr [])"
proof -
  have i: "initial (completed example_dead) = 0"
    by (simp add: example_dead_fields)
  have r: "reach (completed example_dead) 0 ''a'' = Inr {}"
    by (simp add: reach_def complete_lookup example_dead_fields)
  have r1: "efold (step1_word (completed example_dead)) [''a''] ([], [''a''], [])
      = Inr ([], [], [(''a'', [])])"
    by (simp add: step1_word_eval [OF i ex_to_state(2) r ex_to_state(1)] Let_def)
  have "step1 (completed example_dead) = step1_while (completed example_dead) ([], [], [''a''])"
    by (simp add: step1_def example_dead_fields)
  also have "\<dots> = step1_while (completed example_dead) ([], [(''a'', [])], [])"
    by (subst step1_while_round [OF _ r1]) (simp_all add: add_letter_def)
  finally show ?thesis by (simp add: step1_while_stop)
qed

lemma dead_step2:
  "step2 (completed example_dead) []
     = Inr \<lparr>initialD = ''0'', QD = {}, FD = {}, deltaD = Map.empty\<rparr>"
  by (simp add: step2_def step2_loop_def is_final_def example_dead_fields digit_char_def)

text \<open>
  Claim C8, at \<open>Sigma = [a]\<close>, \<open>Q = {0}\<close>, \<open>initial = 0\<close>, \<open>F = [0]\<close> and an empty
  transition table: the only symbol reaches nothing, \<open>step1\<close> returns no transition, and
  \<open>step2\<close> reports the initial state \<open>''0''\<close> together with an empty set of states and an
  empty set of final states.
\<close>

theorem dead_state_set:
  "reach (completed example_dead) (initial example_dead) ''a'' = Inr {}
   \<and> step1 (completed example_dead) = Some (Inr [])
   \<and> determinization (completed example_dead)
       = Some (Inr \<lparr>initialD = to_state {initial example_dead}, QD = {}, FD = {},
                    deltaD = Map.empty\<rparr>)
   \<and> initial example_dead \<in> set (F example_dead)"
  by (simp add: determinization_def dead_step1 dead_step2 ex_to_state example_dead_fields
        reach_def complete_lookup)

subsection \<open>Ill-formed input\<close>

lemma example_ill_formed_fields:
  "Sigma_alph example_ill_formed = [''a'']" "Q example_ill_formed = [0]"
  "initial example_ill_formed = 0" "F example_ill_formed = [7]"
  "delta example_ill_formed = [(0, ''a'', 0) \<mapsto> (2, - 1), (5, ''c'', 5) \<mapsto> (1, 0)]"
  by (simp_all add: example_ill_formed_def)

lemma ill_formed_step1:
  "step1 (completed example_ill_formed) = Some (Inr [(''0'', ''a'', ''0'')])"
proof -
  have i: "initial (completed example_ill_formed) = 0"
    by (simp add: example_ill_formed_fields)
  have r: "reach (completed example_ill_formed) 0 ''a'' = Inr {0}"
          "reach (completed example_ill_formed) 0 ''aa'' = Inr {0}"
    by (simp_all add: reach_def complete_lookup example_ill_formed_fields)
  have r1: "efold (step1_word (completed example_ill_formed)) [''a''] ([], [''a''], [])
      = Inr ([(''0'', ''a'', ''0'')], [''a''], [(''a'', ''0'')])"
    by (simp add: step1_word_eval [OF i ex_to_state(2) r(1) ex_to_state(2)] Let_def)
  have r2: "efold (step1_word (completed example_ill_formed)) [''aa'']
        ([(''0'', ''a'', ''0'')], [''aa''], [(''a'', ''0'')])
      = Inr ([(''0'', ''a'', ''0'')], [], [(''a'', ''0''), (''aa'', ''0'')])"
    by (simp add: step1_word_eval [OF i ex_to_state(2) r(2) ex_to_state(2)] Let_def)
  have "step1 (completed example_ill_formed)
      = step1_while (completed example_ill_formed) ([], [], [''a''])"
    by (simp add: step1_def example_ill_formed_fields)
  also have "\<dots> = step1_while (completed example_ill_formed)
      ([(''0'', ''a'', ''0'')], [(''a'', ''0'')], [''aa''])"
    by (subst step1_while_round [OF _ r1]) (simp_all add: add_letter_def example_ill_formed_fields)
  also have "\<dots> = step1_while (completed example_ill_formed)
      ([(''0'', ''a'', ''0'')], [(''a'', ''0''), (''aa'', ''0'')], [])"
    by (subst step1_while_round [OF _ r2]) (simp_all add: add_letter_def example_ill_formed_fields)
  finally show ?thesis by (simp add: step1_while_stop)
qed

lemma ill_formed_step2:
  "step2 (completed example_ill_formed) [(''0'', ''a'', ''0'')]
     = Inr \<lparr>initialD = ''0'', QD = {''0''}, FD = {},
            deltaD = [(''0'', ''a'', ''0'') \<mapsto> (2, - 1)]\<rparr>"
proof -
  have w: "step2_weight (completed example_ill_formed) (''0'', ''a'', ''0'') = Inr (2, - 1)"
    by (simp add: step2_weight_def int_py_def complete_lookup example_ill_formed_fields)
  have l: "step2_loop (completed example_ill_formed) [(''0'', ''a'', ''0'')]
      = Inr ({''0''}, [(''0'', ''a'', ''0'') \<mapsto> (2, - 1)])"
    by (simp add: step2_loop_def w)
  have f: "is_final (completed example_ill_formed) {''0''} = Inr {}"
    by (auto simp: is_final_def int_py_def example_ill_formed_fields)
  show ?thesis
    by (simp add: step2_def l f example_ill_formed_fields digit_char_def)
qed

lemma step1_initial_outside:
  assumes ne: "Q A \<noteq> []" and sig: "Sigma_alph A = (c # s) # S"
    and miss: "\<forall>r. delta A (initial A, [c], r) = None"
  shows "step1 A = Some (Inl KeyError)"
proof -
  obtain r Qs where Q: "Q A = r # Qs" using ne by (cases "Q A") auto
  have d: "deltastar A (initial A) (c # s) q = Inl KeyError" for q
    using miss by (simp add: Q deltastar_loop_Inl)
  have "reach A (initial A) (c # s) = Inl KeyError"
    by (simp add: reach_def Q d del: deltastar.simps)
  then have "step1_word A (c # s) st = Inl KeyError" for st
    by (cases st) (simp add: step1_word_def)
  then have "efold (step1_word A) ((c # s) # S) st = Inl KeyError" for st
    by simp
  then show ?thesis
    unfolding step1_def sig by (subst step1_while.simps) simp
qed

text \<open>
  Claim C9, as the code has it.  Nothing validates the input: the construction (the
  module-level assignments and \<open>delta = complete()\<close>) keeps the alphabet, the states, the
  initial state, the final states and every entry of the table as given, whatever the key
  and the value.  An initial state outside \<open>Q\<close> that has no entry in the table is found by
  \<open>step1\<close>, which raises \<open>KeyError\<close> (when \<open>Q\<close> is not empty and the first symbol of
  \<open>Sigma\<close> is not the empty string).
\<close>

theorem no_validation:
  "(\<forall>k v. delta A k = Some v \<longrightarrow> delta (completed A) k = Some v)
   \<and> Sigma_alph (completed A) = Sigma_alph A \<and> Q (completed A) = Q A
   \<and> initial (completed A) = initial A \<and> F (completed A) = F A
   \<and> (initial A \<notin> set (Q A) \<and> Q A \<noteq> []
        \<and> (\<exists>c s S. Sigma_alph A = (c # s) # S \<and> (\<forall>r. delta A (initial A, [c], r) = None))
       \<longrightarrow> step1 (completed A) = Some (Inl KeyError))"
proof (intro conjI allI impI)
  assume h: "initial A \<notin> set (Q A) \<and> Q A \<noteq> []
        \<and> (\<exists>c s S. Sigma_alph A = (c # s) # S \<and> (\<forall>r. delta A (initial A, [c], r) = None))"
  then obtain c s S where sig: "Sigma_alph A = (c # s) # S"
    and miss: "\<forall>r. delta A (initial A, [c], r) = None"
    by blast
  have "\<forall>r. delta (completed A) (initial (completed A), [c], r) = None"
    using h miss by (simp add: complete_lookup)
  moreover have "Q (completed A) \<noteq> []" "Sigma_alph (completed A) = (c # s) # S"
    using h sig by simp_all
  ultimately show "step1 (completed A) = Some (Inl KeyError)"
    using step1_initial_outside by blast
qed (simp_all add: complete_fill fill_def)

lemma example_no_initial_fields:
  "Sigma_alph example_no_initial = [''a'']" "Q example_no_initial = [0]"
  "initial example_no_initial = 7" "F example_no_initial = [0]"
  "delta example_no_initial = [(0, ''a'', 0) \<mapsto> (1, 0)]"
  by (simp_all add: example_no_initial_def)

theorem no_validation_witness:
  "delta example_ill_formed (0, ''a'', 0) = Some (2, - 1)
   \<and> delta (completed example_ill_formed) (0, ''a'', 0) = Some (2, - 1)
   \<and> delta example_ill_formed (5, ''c'', 5) = Some (1, 0)
   \<and> delta (completed example_ill_formed) (5, ''c'', 5) = Some (1, 0)
   \<and> F (completed example_ill_formed) = [7]
   \<and> initial example_no_initial \<notin> set (Q example_no_initial)
   \<and> Q example_no_initial \<noteq> []
   \<and> Sigma_alph example_no_initial = [''a'']
   \<and> step1 (completed example_no_initial) = Some (Inl KeyError)"
proof -
  note t = no_validation [of example_ill_formed]
  note u = no_validation [of example_no_initial]
  have a: "delta example_ill_formed (0, ''a'', 0) = Some (2, - 1)"
    and b: "delta example_ill_formed (5, ''c'', 5) = Some (1, 0)"
    by (simp_all add: example_ill_formed_fields)
  have a': "delta (completed example_ill_formed) (0, ''a'', 0) = Some (2, - 1)"
    using t a by blast
  have b': "delta (completed example_ill_formed) (5, ''c'', 5) = Some (1, 0)"
    using t b by blast
  have f: "F (completed example_ill_formed) = [7]"
    using t by (simp add: example_ill_formed_fields)
  have h: "initial example_no_initial \<notin> set (Q example_no_initial)"
    "Q example_no_initial \<noteq> []" "Sigma_alph example_no_initial = [''a'']"
    by (simp_all add: example_no_initial_fields)
  have m: "\<forall>r. delta example_no_initial (initial example_no_initial, ''a'', r) = None"
    by (simp add: example_no_initial_fields)
  have "\<exists>c s S. Sigma_alph example_no_initial = (c # s) # S
        \<and> (\<forall>r. delta example_no_initial (initial example_no_initial, [c], r) = None)"
    using h(3) m by (intro exI [of _ "CHR ''a''"] exI [of _ "[]"]) simp
  with u h have k: "step1 (completed example_no_initial) = Some (Inl KeyError)"
    by blast
  from a a' b b' f h k show ?thesis by (intro conjI)
qed

text \<open>
  Claim C9 as stated fails: an automaton with a final state outside \<open>Q\<close>, a truth value
  outside the unit square and a key outside \<open>Q \<times> Sigma \<times> Q\<close> is determinized without any
  rejection, and an initial state outside \<open>Q\<close> raises \<open>KeyError\<close> in the middle of \<open>step1\<close>.
\<close>

theorem ill_formed_accepted:
  "\<not> set (F example_ill_formed) \<subseteq> set (Q example_ill_formed)
   \<and> delta example_ill_formed (0, ''a'', 0) = Some (2, - 1) \<and> \<not> unit_square (2, - 1)
   \<and> delta example_ill_formed (5, ''c'', 5) = Some (1, 0)
   \<and> (5, ''c'', 5) \<notin> triples example_ill_formed
   \<and> determinization (completed example_ill_formed)
       = Some (Inr \<lparr>initialD = ''0'', QD = {''0''}, FD = {},
                    deltaD = [(''0'', ''a'', ''0'') \<mapsto> (2, - 1)]\<rparr>)
   \<and> initial example_no_initial \<notin> set (Q example_no_initial)
   \<and> determinization (completed example_no_initial) = Some (Inl KeyError)"
proof -
  have "step1 (completed example_no_initial) = Some (Inl KeyError)"
    by (rule step1_initial_outside [where c = "CHR ''a''" and s = "[]" and S = "[]"])
       (simp_all add: example_no_initial_fields complete_lookup)
  then show ?thesis
    by (simp add: determinization_def ill_formed_step1 ill_formed_step2 example_ill_formed_fields
          example_no_initial_fields unit_square_def triples_def)
qed

subsection \<open>Termination of \<open>step1\<close> and the number of states\<close>

lemma reach_aux:
  "efold (\<lambda>q acc. case deltastar A p w q of
                       Inl e \<Rightarrow> Inl e
                     | Inr v \<Rightarrow> Inr (if v \<noteq> (0, 1) then insert q acc else acc)) Qs acc0 = Inr X
   \<Longrightarrow> X = acc0 \<union> {q \<in> set Qs. deltastar A p w q \<noteq> Inr (0, 1)}
       \<and> (\<forall>q \<in> set Qs. \<exists>v. deltastar A p w q = Inr v)"
proof (induction Qs arbitrary: acc0)
  case Nil
  then show ?case by simp
next
  case (Cons q Qs)
  from Cons.prems obtain v where v: "deltastar A p w q = Inr v"
    by (cases "deltastar A p w q") simp_all
  with Cons.prems have
    "efold (\<lambda>q acc. case deltastar A p w q of
                       Inl e \<Rightarrow> Inl e
                     | Inr v \<Rightarrow> Inr (if v \<noteq> (0, 1) then insert q acc else acc)) Qs
        (if v \<noteq> (0, 1) then insert q acc0 else acc0) = Inr X"
    by simp
  from Cons.IH [OF this] v show ?case by auto
qed

lemma reach_Inr:
  "reach A p w = Inr X \<Longrightarrow> X = {q \<in> set (Q A). deltastar A p w q \<noteq> Inr (0, 1)}"
  unfolding reach_def by (drule reach_aux) simp

lemma reach_subset: "reach A p w = Inr X \<Longrightarrow> X \<subseteq> set (Q A)"
  by (drule reach_Inr) auto

lemma reach_defined_aux:
  "\<forall>q \<in> set Qs. \<exists>v. deltastar A p w q = Inr v \<Longrightarrow>
   \<exists>X. efold (\<lambda>q acc. case deltastar A p w q of
                       Inl e \<Rightarrow> Inl e
                     | Inr v \<Rightarrow> Inr (if v \<noteq> (0, 1) then insert q acc else acc)) Qs acc0 = Inr X"
proof (induction Qs arbitrary: acc0)
  case Nil
  then show ?case by simp
next
  case (Cons q Qs)
  then obtain v where v: "deltastar A p w q = Inr v" by auto
  from Cons.IH Cons.prems show ?case by (simp add: v)
qed

lemma reach_defined:
  "\<forall>q \<in> set (Q A). \<exists>v. deltastar A p w q = Inr v \<Longrightarrow> \<exists>X. reach A p w = Inr X"
  unfolding reach_def by (rule reach_defined_aux)

lemma to_state_empty: "to_state {} = []"
  by (simp add: to_state_def)

lemma enc_encodings: "enc A w \<in> encodings A"
proof (cases "reach A (initial A) w")
  case (Inl e)
  then have "enc A w = to_state {}" by (simp add: enc_def to_state_empty)
  then show ?thesis by (simp add: encodings_def)
next
  case (Inr X)
  then show ?thesis using reach_subset [OF Inr] by (auto simp: enc_def encodings_def)
qed

lemma finite_encodings: "finite (encodings A)"
  by (simp add: encodings_def)

lemma step1_word_Inr:
  assumes "step1_word A w (T, W, ST) = Inr (T', W', ST')"
  shows "w \<noteq> []" and "\<exists>X. reach A (initial A) w = Inr X"
    and "ST' = AList.update w (enc A w) ST"
    and "W' = (if enc A w \<in> snd ` set ST \<or> enc A w = [] then remove1 w W else W)"
    and "enc A w \<in> snd ` set ST \<or> enc A w = [] \<Longrightarrow> w \<in> set W"
    and "T' = T \<or> (enc A w \<noteq> [] \<and>
           T' = T @ [(case map_of ST (butlast w) of Some st \<Rightarrow> st
                      | None \<Rightarrow> to_state {initial A}, [last w], enc A w)])"
  using assms
  by (auto simp: step1_word_def Let_def enc_def split: sum.splits if_splits)

lemma step1_word_defined:
  assumes "w \<noteq> []" "reach A (initial A) w = Inr X" "w \<in> set W"
  shows "\<exists>r. step1_word A w (T, W, ST) = Inr r"
  using assms by (simp add: step1_word_def Let_def)

lemma update_values:
  "entries_ok A ST \<Longrightarrow>
     snd ` set (AList.update w (enc A w) ST) = insert (enc A w) (snd ` set ST)
     \<and> entries_ok A (AList.update w (enc A w) ST)"
  by (induction ST) (auto simp: entries_ok_def)

lemma remove1_middle: "\<exists>S1. remove1 w (S @ w # rest) = S1 @ rest \<and> set S1 \<subseteq> set S
    \<and> (distinct S \<longrightarrow> distinct S1 \<and> set S1 = set S)"
proof (cases "w \<in> set S")
  case True
  then have "remove1 w (S @ w # rest) = (remove1 w S @ [w]) @ rest"
    by (simp add: remove1_append)
  moreover have "set (remove1 w S @ [w]) \<subseteq> set S"
    using True set_remove1_subset [of w S] by auto
  moreover have "distinct S \<longrightarrow> distinct (remove1 w S @ [w]) \<and> set (remove1 w S @ [w]) = set S"
    using True by auto
  ultimately show ?thesis by blast
next
  case False
  then have "remove1 w (S @ w # rest) = S @ rest"
    by (simp add: remove1_append)
  then show ?thesis by blast
qed

lemma step1_word_survivors:
  assumes ok: "survivors_ok A V0 ST S"
    and step: "step1_word A w (T, S @ w # rest, ST) = Inr (T1, W1, ST1)"
  shows "\<exists>S1. W1 = S1 @ rest \<and> survivors_ok A V0 ST1 S1 \<and> set S1 \<subseteq> insert w (set S)"
proof -
  note s = step1_word_Inr [OF step]
  have e: "entries_ok A ST" using ok by (simp add: survivors_ok_def)
  have v: "snd ` set ST1 = insert (enc A w) (snd ` set ST)" and e1: "entries_ok A ST1"
    using update_values [OF e, of w] s(3) by simp_all
  show ?thesis
  proof (cases "enc A w \<in> snd ` set ST \<or> enc A w = []")
    case True
    with s(4) have W1: "W1 = remove1 w (S @ w # rest)" by simp
    from remove1_middle [of w S rest] obtain S1 where
      S1: "remove1 w (S @ w # rest) = S1 @ rest" "set S1 \<subseteq> set S"
          "distinct S \<longrightarrow> distinct S1 \<and> set S1 = set S"
      by blast
    have "survivors_ok A V0 ST1 S1"
      using ok S1 v e1 by (auto simp: survivors_ok_def)
    with W1 S1 show ?thesis by auto
  next
    case False
    with s(4) have W1: "W1 = (S @ [w]) @ rest" by simp
    from False ok have "enc A w \<notin> enc A ` set S"
      by (auto simp: survivors_ok_def)
    then have "survivors_ok A V0 ST1 (S @ [w])"
      using ok False v e1 by (auto simp: survivors_ok_def)
    with W1 show ?thesis by auto
  qed
qed

lemma step1_for_survivors:
  "survivors_ok A V0 ST S \<Longrightarrow>
   efold (step1_word A) rest (T, S @ rest, ST) = Inr (T', W', ST') \<Longrightarrow>
   survivors_ok A V0 ST' W' \<and> set W' \<subseteq> set S \<union> set rest"
proof (induction rest arbitrary: T S ST)
  case Nil
  then show ?case by simp
next
  case (Cons w rest)
  from Cons.prems(2) obtain T1 W1 ST1 where
    step: "step1_word A w (T, S @ w # rest, ST) = Inr (T1, W1, ST1)"
    and more: "efold (step1_word A) rest (T1, W1, ST1) = Inr (T', W', ST')"
    by (auto split: sum.splits)
  from step1_word_survivors [OF Cons.prems(1) step] obtain S1 where
    S1: "W1 = S1 @ rest" "survivors_ok A V0 ST1 S1" "set S1 \<subseteq> insert w (set S)"
    by blast
  from Cons.IH [OF S1(2) more [unfolded S1(1)]] S1(3) show ?case by auto
qed

lemma step1_round_survivors:
  assumes "entries_ok A ST"
    and "efold (step1_word A) nw (T, nw, ST) = Inr (T', W', ST')"
  shows "survivors_ok A (snd ` set ST) ST' W'" and "set W' \<subseteq> set nw"
proof -
  have "survivors_ok A (snd ` set ST) ST []"
    using assms(1) by (simp add: survivors_ok_def)
  from step1_for_survivors [OF this, of nw T T' W' ST'] assms(2)
  show "survivors_ok A (snd ` set ST) ST' W'" and "set W' \<subseteq> set nw" by simp_all
qed

lemma step1_run_while:
  "fst (step1_run n A s) = Some r \<Longrightarrow> step1_while A s = Some r"
proof (induction n arbitrary: s)
  case 0
  then show ?case by simp
next
  case (Suc n)
  obtain T ST nw where s: "s = (T, ST, nw)" by (cases s) auto
  show ?case
  proof (cases "nw = []")
    case True
    with Suc.prems show ?thesis by (simp add: s step1_while_stop)
  next
    case False
    show ?thesis
    proof (cases "efold (step1_word A) nw (T, nw, ST)")
      case (Inl e)
      with Suc.prems False show ?thesis
        by (subst step1_while.simps) (simp add: s)
    next
      case (Inr res)
      obtain T' W' ST' where res: "res = (T', W', ST')" by (cases res) auto
      from Suc.prems False Inr have "fst (step1_run n A (T', ST', add_letter A W')) = Some r"
        by (simp add: s res split: prod.splits)
      from Suc.IH [OF this] False Inr show ?thesis
        by (subst step1_while.simps) (simp add: s res)
    qed
  qed
qed

lemma str_nonempty: "str n \<noteq> []"
  by (subst str.simps) simp

lemma to_state_single: "to_state {n} = str n"
  by (simp add: to_state_def)

lemma enc_empty_word:
  assumes "initial A \<in> set (Q A)"
  shows "enc A [] = to_state {initial A}"
proof -
  have "\<exists>X. reach A (initial A) [] = Inr X"
    by (rule reach_defined) simp
  then obtain X where X: "reach A (initial A) [] = Inr X" by blast
  from reach_Inr [OF X] assms have "X = {initial A}" by auto
  with X show ?thesis by (simp add: enc_def)
qed

lemma reach_total:
  assumes tot: "\<forall>k \<in> triples A. delta A k \<noteq> None"
    and "p \<in> set (Q A)" "symbols_ok A w"
  shows "\<exists>X. reach A p w = Inr X"
  by (rule reach_defined) (use deltastar_defined [OF tot assms(2,3)] in blast)

lemma step1_for_defined:
  assumes tot: "\<forall>k \<in> triples A. delta A k \<noteq> None" and init: "initial A \<in> set (Q A)"
  shows "frontier_ok A rest \<Longrightarrow> \<exists>r. efold (step1_word A) rest (T, S @ rest, ST) = Inr r"
proof (induction rest arbitrary: T S ST)
  case Nil
  then show ?case by simp
next
  case (Cons w rest)
  then have w: "w \<noteq> []" "symbols_ok A w" and rest: "frontier_ok A rest"
    by (simp_all add: frontier_ok_def)
  from reach_total [OF tot init w(2)] obtain X where "reach A (initial A) w = Inr X" by blast
  from step1_word_defined [OF w(1) this, of "S @ w # rest" T ST]
  obtain T1 W1 ST1 where step: "step1_word A w (T, S @ w # rest, ST) = Inr (T1, W1, ST1)"
    by (metis in_set_conv_decomp prod_cases3)
  from step1_word_Inr(4) [OF step] remove1_middle [of w S rest]
  obtain S1 where "W1 = S1 @ rest"
    by (metis append.assoc append_Cons append_Nil)
  with Cons.IH [OF rest, of T1 S1 ST1] step show ?case by simp
qed

lemma step1_word_states:
  assumes init: "initial A \<in> set (Q A)" and e: "entries_ok A ST"
    and b: "enc A (butlast w) \<noteq> []"
    and T: "states_of T \<subseteq> nonempty_encodings A"
    and step: "step1_word A w (T, W, ST) = Inr (T1, W1, ST1)"
  shows "states_of T1 \<subseteq> nonempty_encodings A"
proof -
  let ?prev = "case map_of ST (butlast w) of Some st \<Rightarrow> st | None \<Rightarrow> to_state {initial A}"
  have prev: "?prev \<in> nonempty_encodings A"
  proof (cases "map_of ST (butlast w)")
    case None
    have "to_state {initial A} \<in> encodings A"
      using init by (auto simp: encodings_def)
    then show ?thesis
      by (simp add: None nonempty_encodings_def to_state_single str_nonempty)
  next
    case (Some st)
    then have "(butlast w, st) \<in> set ST" by (rule map_of_SomeD)
    with e have "st = enc A (butlast w)" by (auto simp: entries_ok_def)
    with b show ?thesis by (simp add: Some nonempty_encodings_def enc_encodings)
  qed
  from step1_word_Inr(6) [OF step] show ?thesis
  proof
    assume "T1 = T" with T show ?thesis by simp
  next
    assume a: "enc A w \<noteq> [] \<and> T1 = T @ [(?prev, [last w], enc A w)]"
    then have "enc A w \<in> nonempty_encodings A"
      by (simp add: nonempty_encodings_def enc_encodings)
    with a prev T show ?thesis by (auto simp: states_of_def)
  qed
qed

lemma step1_for_states:
  assumes init: "initial A \<in> set (Q A)"
  shows "entries_ok A ST \<Longrightarrow> \<forall>w \<in> set rest. enc A (butlast w) \<noteq> [] \<Longrightarrow>
    states_of T \<subseteq> nonempty_encodings A \<Longrightarrow>
    efold (step1_word A) rest (T, W, ST) = Inr (T', W', ST') \<Longrightarrow>
    states_of T' \<subseteq> nonempty_encodings A"
proof (induction rest arbitrary: T W ST)
  case Nil
  then show ?case by simp
next
  case (Cons w rest)
  from Cons.prems(4) obtain T1 W1 ST1 where
    step: "step1_word A w (T, W, ST) = Inr (T1, W1, ST1)"
    and more: "efold (step1_word A) rest (T1, W1, ST1) = Inr (T', W', ST')"
    by (auto split: sum.splits)
  have b: "enc A (butlast w) \<noteq> []" and r: "\<forall>w \<in> set rest. enc A (butlast w) \<noteq> []"
    using Cons.prems(2) by simp_all
  have T1: "states_of T1 \<subseteq> nonempty_encodings A"
    by (rule step1_word_states [OF init Cons.prems(1) b Cons.prems(3) step])
  have "entries_ok A ST1"
    using update_values [OF Cons.prems(1), of w] step1_word_Inr(3) [OF step] by simp
  from Cons.IH [OF this r T1 more] show ?case .
qed

lemma add_letter_frontier:
  assumes single: "\<forall>a \<in> set (Sigma_alph A). length a = 1"
    and W: "\<forall>w \<in> set W. symbols_ok A w \<and> enc A w \<noteq> []"
  shows "frontier_ok A (add_letter A W)"
proof -
  have "w' \<noteq> [] \<and> symbols_ok A w' \<and> enc A (butlast w') \<noteq> []"
    if "w' \<in> set (add_letter A W)" for w'
  proof -
    from that obtain w a where wa: "w \<in> set W" "a \<in> set (Sigma_alph A)" "w' = w @ a"
      by (auto simp: add_letter_def)
    from single wa(2) obtain c where c: "a = [c]"
      by (cases a) auto
    with wa W show ?thesis by (auto simp: symbols_ok_def)
  qed
  then show ?thesis by (simp add: frontier_ok_def)
qed

lemma add_letter_Nil: "add_letter A [] = []"
  by (simp add: add_letter_def)

lemma survivors_measure:
  assumes ok: "survivors_ok A (snd ` set ST) ST1 W1"
  shows "2 * card (encodings A - snd ` set ST1) + (if add_letter A W1 = [] then 0 else 1)
         < 2 * card (encodings A - snd ` set ST) + 1"
proof (cases "W1 = []")
  case True
  have "encodings A - snd ` set ST1 \<subseteq> encodings A - snd ` set ST"
    using ok by (auto simp: survivors_ok_def)
  then have "card (encodings A - snd ` set ST1) \<le> card (encodings A - snd ` set ST)"
    by (intro card_mono) (simp_all add: finite_encodings)
  then show ?thesis by (simp add: True add_letter_Nil)
next
  case False
  then obtain w where w: "w \<in> set W1" by (cases W1) auto
  with ok have "enc A w \<in> snd ` set ST1" "enc A w \<notin> snd ` set ST"
    by (auto simp: survivors_ok_def)
  moreover have "enc A w \<in> encodings A" by (rule enc_encodings)
  moreover have "snd ` set ST \<subseteq> snd ` set ST1"
    using ok by (simp add: survivors_ok_def)
  ultimately have "encodings A - snd ` set ST1 \<subset> encodings A - snd ` set ST"
    by blast
  then have "card (encodings A - snd ` set ST1) < card (encodings A - snd ` set ST)"
    by (intro psubset_card_mono) (simp_all add: finite_encodings)
  then show ?thesis by (simp split: if_splits)
qed

lemma step1_run_correct:
  assumes tot: "\<forall>k \<in> triples A. delta A k \<noteq> None" and init: "initial A \<in> set (Q A)"
    and single: "\<forall>a \<in> set (Sigma_alph A). length a = 1"
  shows "entries_ok A ST \<Longrightarrow> frontier_ok A nw \<Longrightarrow> states_of T \<subseteq> nonempty_encodings A \<Longrightarrow>
    2 * card (encodings A - snd ` set ST) + (if nw = [] then 0 else 1) < n \<Longrightarrow>
    \<exists>T' ext. step1_run n A (T, ST, nw) = (Some (Inr T'), ext)
      \<and> distinct (map (enc A) ext) \<and> enc A ` set ext \<inter> snd ` set ST = {}
      \<and> states_of T' \<subseteq> nonempty_encodings A"
proof (induction n arbitrary: T ST nw)
  case 0
  then show ?case by simp
next
  case (Suc n)
  show ?case
  proof (cases "nw = []")
    case True
    with Suc.prems(3) show ?thesis by simp
  next
    case False
    from step1_for_defined [OF tot init Suc.prems(2), of T "[]" ST]
    obtain T1 W1 ST1 where round: "efold (step1_word A) nw (T, nw, ST) = Inr (T1, W1, ST1)"
      by (metis append_Nil prod_cases3)
    note surv = step1_round_survivors [OF Suc.prems(1) round]
    have e1: "entries_ok A ST1" using surv(1) by (simp add: survivors_ok_def)
    have "\<forall>w \<in> set nw. enc A (butlast w) \<noteq> []"
      using Suc.prems(2) by (simp add: frontier_ok_def)
    from step1_for_states [OF init Suc.prems(1) this Suc.prems(3) round]
    have T1: "states_of T1 \<subseteq> nonempty_encodings A" .
    have "\<forall>w \<in> set W1. symbols_ok A w \<and> enc A w \<noteq> []"
    proof
      fix w assume w: "w \<in> set W1"
      with surv(2) Suc.prems(2) have "symbols_ok A w" by (auto simp: frontier_ok_def)
      moreover from w surv(1) have "enc A w \<noteq> []"
        by (auto simp: survivors_ok_def image_iff)
      ultimately show "symbols_ok A w \<and> enc A w \<noteq> []" by simp
    qed
    then have f1: "frontier_ok A (add_letter A W1)"
      by (rule add_letter_frontier [OF single])
    have "2 * card (encodings A - snd ` set ST1) + (if add_letter A W1 = [] then 0 else 1) < n"
      using survivors_measure [OF surv(1)] Suc.prems(4) False by simp
    from Suc.IH [OF e1 f1 T1 this] obtain T' ext where
      run: "step1_run n A (T1, ST1, add_letter A W1) = (Some (Inr T'), ext)"
      and d: "distinct (map (enc A) ext)"
      and dis: "enc A ` set ext \<inter> snd ` set ST1 = {}"
      and T': "states_of T' \<subseteq> nonempty_encodings A"
      by blast
    have r: "step1_run (Suc n) A (T, ST, nw) = (Some (Inr T'), W1 @ ext)"
      using False round run by simp
    have dW: "distinct (map (enc A) W1)"
      using surv(1) by (simp add: survivors_ok_def distinct_map)
    have "enc A ` set W1 \<subseteq> snd ` set ST1"
      using surv(1) by (simp add: survivors_ok_def)
    with dis have "enc A ` set W1 \<inter> enc A ` set ext = {}"
      by blast
    with dW d have d': "distinct (map (enc A) (W1 @ ext))" by simp
    have "enc A ` set W1 \<inter> snd ` set ST = {}" "snd ` set ST \<subseteq> snd ` set ST1"
      using surv(1) by (simp_all add: survivors_ok_def)
    with dis have "enc A ` set (W1 @ ext) \<inter> snd ` set ST = {}"
      by (simp add: image_Un) blast
    with r d' T' have "step1_run (Suc n) A (T, ST, nw) = (Some (Inr T'), W1 @ ext)
      \<and> distinct (map (enc A) (W1 @ ext)) \<and> enc A ` set (W1 @ ext) \<inter> snd ` set ST = {}
      \<and> states_of T' \<subseteq> nonempty_encodings A"
      by (intro conjI)
    then show ?thesis by (intro exI)
  qed
qed

lemma card_nonempty_encodings: "card (nonempty_encodings A) \<le> 2 ^ card (set (Q A)) - 1"
proof -
  have "nonempty_encodings A \<subseteq> to_state ` (Pow (set (Q A)) - {{}})"
    by (auto simp: nonempty_encodings_def encodings_def to_state_empty)
  then have "card (nonempty_encodings A) \<le> card (to_state ` (Pow (set (Q A)) - {{}}))"
    by (intro card_mono) simp_all
  also have "\<dots> \<le> card (Pow (set (Q A)) - {{}})"
    by (intro card_image_le) simp
  also have "\<dots> = card (Pow (set (Q A))) - 1"
    by (rule card_Diff_singleton) simp
  also have "\<dots> = 2 ^ card (set (Q A)) - 1"
    by (simp only: card_Pow [OF finite_set])
  finally show ?thesis .
qed

lemma step2_loop_states_aux:
  "efold (\<lambda>t s. case s of (qd, dd) \<Rightarrow>
              (case step2_weight A t of
                 Inl e \<Rightarrow> Inl e
               | Inr v \<Rightarrow> Inr (qd \<union> {fst t, snd (snd t)}, dd(t \<mapsto> v))))
           T (qd0, dd0) = Inr (qd, dd) \<Longrightarrow> qd = qd0 \<union> states_of T"
proof (induction T arbitrary: qd0 dd0)
  case Nil
  then show ?case by (simp add: states_of_def)
next
  case (Cons t T)
  show ?case
  proof (cases "step2_weight A t")
    case (Inl e)
    with Cons.prems show ?thesis by simp
  next
    case (Inr v)
    with Cons.prems have
      "efold (\<lambda>t s. case s of (qd, dd) \<Rightarrow>
              (case step2_weight A t of
                 Inl e \<Rightarrow> Inl e
               | Inr v \<Rightarrow> Inr (qd \<union> {fst t, snd (snd t)}, dd(t \<mapsto> v))))
           T (qd0 \<union> {fst t, snd (snd t)}, dd0(t \<mapsto> v)) = Inr (qd, dd)"
      by simp
    from Cons.IH [OF this] have "qd = qd0 \<union> {fst t, snd (snd t)} \<union> states_of T" .
    also have "\<dots> = qd0 \<union> states_of (t # T)"
      unfolding states_of_def by auto
    finally show ?thesis .
  qed
qed

lemma step2_loop_states: "step2_loop A T = Inr (qd, dd) \<Longrightarrow> qd = states_of T"
  using step2_loop_states_aux [of A T "{}" Map.empty qd dd]
  by (simp add: step2_loop_def)

lemma step2_states:
  assumes "step2 A T = Inr r"
  shows "QD r = states_of T"
proof -
  from assms have u:
    "(case step2_loop A T of
        Inl e \<Rightarrow> Inl e
      | Inr (qd, dd) \<Rightarrow>
          (case is_final A qd of
             Inl e \<Rightarrow> Inl e
           | Inr fd \<Rightarrow> Inr \<lparr>initialD = str (initial A), QD = qd, FD = fd, deltaD = dd\<rparr>))
     = Inr r"
    unfolding step2_def .
  show ?thesis
  proof (cases "step2_loop A T")
    case (Inl e)
    with u have "(Inl e :: error + fpda) = Inr r" by (simp only: sum.case)
    then show ?thesis by (simp only: sum.distinct)
  next
    case (Inr p)
    obtain qd dd where p: "p = (qd, dd)" by (cases p) (simp only:)
    have l: "step2_loop A T = Inr (qd, dd)" using Inr p by (simp only:)
    then have qd: "qd = states_of T" by (rule step2_loop_states)
    from u l have v:
      "(case is_final A qd of
             Inl e \<Rightarrow> Inl e
           | Inr fd \<Rightarrow> Inr \<lparr>initialD = str (initial A), QD = qd, FD = fd, deltaD = dd\<rparr>)
       = Inr r"
      by (simp only: sum.case prod.case)
    show ?thesis
    proof (cases "is_final A qd")
      case (Inl e)
      with v have "(Inl e :: error + fpda) = Inr r" by (simp only: sum.case)
      then show ?thesis by (simp only: sum.distinct)
    next
      case (Inr fd)
      with v have "Inr \<lparr>initialD = str (initial A), QD = qd, FD = fd, deltaD = dd\<rparr> = (Inr r :: error + fpda)"
        by (simp only: sum.case)
      then have "r = \<lparr>initialD = str (initial A), QD = qd, FD = fd, deltaD = dd\<rparr>"
        by (simp only: sum.inject)
      then have "QD r = qd" by (simp only: fpda.simps)
      with qd show ?thesis by (simp only:)
    qed
  qed
qed

lemma step1_run_terminates:
  "entries_ok A ST \<Longrightarrow>
   2 * card (encodings A - snd ` set ST) + (if nw = [] then 0 else 1) < n \<Longrightarrow>
   \<exists>r. fst (step1_run n A (T, ST, nw)) = Some r"
proof (induction n arbitrary: T ST nw)
  case 0
  then show ?case by simp
next
  case (Suc n)
  show ?case
  proof (cases "nw = []")
    case True
    then show ?thesis by simp
  next
    case False
    show ?thesis
    proof (cases "efold (step1_word A) nw (T, nw, ST)")
      case (Inl e)
      with False show ?thesis by simp
    next
      case (Inr res)
      obtain T1 W1 ST1 where res: "res = (T1, W1, ST1)" by (cases res) auto
      have round: "efold (step1_word A) nw (T, nw, ST) = Inr (T1, W1, ST1)"
        using Inr res by simp
      note surv = step1_round_survivors [OF Suc.prems(1) round]
      have e1: "entries_ok A ST1" using surv(1) by (simp add: survivors_ok_def)
      have "2 * card (encodings A - snd ` set ST1) + (if add_letter A W1 = [] then 0 else 1) < n"
        using survivors_measure [OF surv(1)] Suc.prems(2) False by simp
      from Suc.IH [OF e1 this, of T1] obtain r where
        "fst (step1_run n A (T1, ST1, add_letter A W1)) = Some r" by blast
      then have "fst (step1_run (Suc n) A (T, ST, nw)) = Some r"
        using False round by (auto split: prod.splits)
      then show ?thesis by blast
    qed
  qed
qed

lemma step1_always_terminates: "\<exists>r. step1 A = Some r"
proof -
  let ?n = "Suc (2 * card (encodings A - snd ` set ([] :: (string \<times> string) list))
                 + (if Sigma_alph A = [] then 0 else 1))"
  have e: "entries_ok A []" by (simp add: entries_ok_def)
  have m: "2 * card (encodings A - snd ` set ([] :: (string \<times> string) list))
                 + (if Sigma_alph A = [] then 0 else 1) < ?n"
    by simp
  from step1_run_terminates [OF e m, of "[]"] obtain r where
    "fst (step1_run ?n A ([], [], Sigma_alph A)) = Some r" by blast
  then have "step1 A = Some r"
    unfolding step1_def by (rule step1_run_while)
  then show ?thesis by blast
qed

lemma step1_succeeds:
  assumes "\<forall>a \<in> set (Sigma_alph A). length a = 1" and "initial A \<in> set (Q A)"
  shows "\<exists>n T extended.
           step1_run n (completed A) ([], [], Sigma_alph A) = (Some (Inr T), extended)
         \<and> step1 (completed A) = Some (Inr T)
         \<and> distinct (map (enc (completed A)) extended)
         \<and> card (states_of T) \<le> 2 ^ card (set (Q A)) - 1
         \<and> (\<forall>r. step2 (completed A) T = Inr r \<longrightarrow> card (QD r) \<le> 2 ^ card (set (Q A)) - 1)"
proof -
  let ?A = "completed A"
  have init: "initial ?A \<in> set (Q ?A)" and single: "\<forall>a \<in> set (Sigma_alph ?A). length a = 1"
    using assms by simp_all
  have e: "entries_ok ?A []" by (simp add: entries_ok_def)
  have f: "frontier_ok ?A (Sigma_alph A)"
  proof -
    have "a \<noteq> [] \<and> symbols_ok ?A a \<and> enc ?A (butlast a) \<noteq> []"
      if "a \<in> set (Sigma_alph A)" for a
    proof -
      from that assms(1) have "length a = 1" by blast
      then obtain c where c: "a = [c]" by (auto simp: length_Suc_conv)
      with that show ?thesis
        by (simp add: symbols_ok_def enc_empty_word [OF init] to_state_single str_nonempty)
    qed
    then show ?thesis by (simp add: frontier_ok_def)
  qed
  have T: "states_of [] \<subseteq> nonempty_encodings ?A" by (simp add: states_of_def)
  let ?n = "Suc (2 * card (encodings ?A - snd ` set ([] :: (string \<times> string) list)) + (if Sigma_alph A = [] then 0 else 1))"
  have m: "2 * card (encodings ?A - snd ` set ([] :: (string \<times> string) list)) + (if Sigma_alph A = [] then 0 else 1) < ?n"
    by simp
  from step1_run_correct [OF complete_total init single e f T m]
  obtain T' ext where run: "step1_run ?n ?A ([], [], Sigma_alph A) = (Some (Inr T'), ext)"
    and d: "distinct (map (enc ?A) ext)"
    and s: "states_of T' \<subseteq> nonempty_encodings ?A"
    by (elim exE conjE)
  have w: "step1 ?A = Some (Inr T')"
    unfolding step1_def using step1_run_while [of ?n ?A "([], [], Sigma_alph A)"] run by simp
  have "finite (nonempty_encodings ?A)"
    by (simp add: nonempty_encodings_def finite_encodings)
  then have "card (states_of T') \<le> card (nonempty_encodings ?A)"
    using s by (rule card_mono)
  with card_nonempty_encodings [of ?A]
  have c: "card (states_of T') \<le> 2 ^ card (set (Q A)) - 1" by simp
  then have q: "\<forall>r. step2 ?A T' = Inr r \<longrightarrow> card (QD r) \<le> 2 ^ card (set (Q A)) - 1"
    by (auto dest: step2_states)
  from run w d c q have "step1_run ?n ?A ([], [], Sigma_alph A) = (Some (Inr T'), ext)
         \<and> step1 ?A = Some (Inr T')
         \<and> distinct (map (enc ?A) ext)
         \<and> card (states_of T') \<le> 2 ^ card (set (Q A)) - 1
         \<and> (\<forall>r. step2 ?A T' = Inr r \<longrightarrow> card (QD r) \<le> 2 ^ card (set (Q A)) - 1)"
    by (intro conjI)
  then show ?thesis by (intro exI)
qed

text \<open>
  Claim C5.  \<open>step1\<close> terminates on every automaton: it returns or raises, and never
  loops for ever.  When every symbol of \<open>Sigma\<close> is a one-character string and the initial
  state is in \<open>Q\<close>, then after completion: \<open>step1\<close> returns a set of transitions (enough
  iterations of the \<open>while\<close> loop give the result, and it is the value of \<open>step1\<close>); no two
  of the words that were extended (the words that survived the pruning and got a letter
  appended) have the same encoding, so every subset is extended from at most once; and at
  most \<open>2 ^ |Q| - 1\<close> deterministic states occur in the transitions, which are the states
  that \<open>step2\<close> registers in \<open>QD\<close>.
\<close>

theorem step1_terminates:
  "(\<exists>r. step1 A = Some r)
   \<and> ((\<forall>a \<in> set (Sigma_alph A). length a = 1) \<and> initial A \<in> set (Q A) \<longrightarrow>
        (\<exists>n T extended.
           step1_run n (completed A) ([], [], Sigma_alph A) = (Some (Inr T), extended)
         \<and> step1 (completed A) = Some (Inr T)
         \<and> distinct (map (enc (completed A)) extended)
         \<and> card (states_of T) \<le> 2 ^ card (set (Q A)) - 1
         \<and> (\<forall>r. step2 (completed A) T = Inr r \<longrightarrow> card (QD r) \<le> 2 ^ card (set (Q A)) - 1)))"
proof (intro conjI impI)
  show "\<exists>r. step1 A = Some r" by (rule step1_always_terminates)
next
  assume "(\<forall>a \<in> set (Sigma_alph A). length a = 1) \<and> initial A \<in> set (Q A)"
  then have "\<forall>a \<in> set (Sigma_alph A). length a = 1" and "initial A \<in> set (Q A)"
    by simp_all
  then show "\<exists>n T extended.
           step1_run n (completed A) ([], [], Sigma_alph A) = (Some (Inr T), extended)
         \<and> step1 (completed A) = Some (Inr T)
         \<and> distinct (map (enc (completed A)) extended)
         \<and> card (states_of T) \<le> 2 ^ card (set (Q A)) - 1
         \<and> (\<forall>r. step2 (completed A) T = Inr r \<longrightarrow> card (QD r) \<le> 2 ^ card (set (Q A)) - 1)"
    by (rule step1_succeeds)
qed

theorem step1_terminates_witness:
  "Sigma_alph example5 = [''a'', ''b''] \<and> initial example5 \<in> set (Q example5)
   \<and> step1 (completed example5)
       = Some (Inr [(''0'', ''a'', ''12''), (''0'', ''b'', ''0''), (''12'', ''b'', ''03''),
                    (''03'', ''a'', ''12''), (''03'', ''b'', ''0'')])
   \<and> card (states_of [(''0'', ''a'', ''12''), (''0'', ''b'', ''0''), (''12'', ''b'', ''03''),
                        (''03'', ''a'', ''12''), (''03'', ''b'', ''0'')])
       \<le> 2 ^ card (set (Q example5)) - 1
   \<and> (\<exists>n extended.
         step1_run n (completed example5) ([], [], Sigma_alph example5)
           = (Some (Inr [(''0'', ''a'', ''12''), (''0'', ''b'', ''0''), (''12'', ''b'', ''03''),
                         (''03'', ''a'', ''12''), (''03'', ''b'', ''0'')]), extended)
         \<and> distinct (map (enc (completed example5)) extended))"
proof -
  have h1: "\<forall>a \<in> set (Sigma_alph example5). length a = 1"
    and h2: "initial example5 \<in> set (Q example5)"
    and h3: "Sigma_alph example5 = [''a'', ''b'']"
    by (simp_all add: example5_fields)
  from h1 h2 have h: "(\<forall>a \<in> set (Sigma_alph example5). length a = 1)
      \<and> initial example5 \<in> set (Q example5)"
    by (rule conjI)
  from step1_terminates [of example5, THEN conjunct2, THEN mp, OF h]
  obtain n T extended where
    r: "step1_run n (completed example5) ([], [], Sigma_alph example5) = (Some (Inr T), extended)"
    and s: "step1 (completed example5) = Some (Inr T)"
    and d: "distinct (map (enc (completed example5)) extended)"
    and c: "card (states_of T) \<le> 2 ^ card (set (Q example5)) - 1"
    by (elim exE conjE)
  from s have T: "T = [(''0'', ''a'', ''12''), (''0'', ''b'', ''0''), (''12'', ''b'', ''03''),
                    (''03'', ''a'', ''12''), (''03'', ''b'', ''0'')]"
    by (simp only: ex_step1 option.inject sum.inject)
  from r d have e: "\<exists>n extended.
         step1_run n (completed example5) ([], [], Sigma_alph example5)
           = (Some (Inr [(''0'', ''a'', ''12''), (''0'', ''b'', ''0''), (''12'', ''b'', ''03''),
                         (''03'', ''a'', ''12''), (''03'', ''b'', ''0'')]), extended)
         \<and> distinct (map (enc (completed example5)) extended)"
    unfolding T by (intro exI conjI)
  from h3 h2 ex_step1 c [unfolded T] e show ?thesis by (intro conjI)
qed

end
